theory Spec2Isabelle
  imports Main
begin

section \<open>Data model\<close>

text \<open>
  The label grid of \<^verbatim>\<open>denoise_predictions.py\<close> is a two-dimensional numpy array.
  It is modelled as the list of its rows; a well-formed array has rows of one common
  length (\<open>rect\<close>). Labels are unbounded integers: the pipeline stores class indices
  exactly (as float64 values of small magnitude), so no rounding or wrap-around occurs.
  numpy arrays are mutable objects that variables only refer to, so arrays live in a
  store: a list of arrays, an address being a position in that list, and allocation
  appending to it. Exceptions are values of type \<open>error\<close>; a raising call returns the
  exception together with the store at the moment it was raised. Writes to the progress
  indicator on stdout are not modelled.
\<close>

datatype error = ValueError | IndexError | UnboundLocalError

type_synonym ndarray = "int list list"
type_synonym addr = nat
type_synonym store = "ndarray list"

definition rect :: "ndarray \<Rightarrow> bool" where
  "rect a = list_all (\<lambda>r. length r = length (hd a)) a"

text \<open>\<^verbatim>\<open>src.shape\<close>: the number of rows and the length of a row (0 for an array without rows).\<close>

definition shape :: "ndarray \<Rightarrow> nat \<times> nat" where
  "shape a = (length a, case a of [] \<Rightarrow> 0 | r # _ \<Rightarrow> length r)"

text \<open>
  Python and numpy index normalisation along an axis of extent \<open>n\<close>: a negative index counts
  from the end, anything outside \<open>[-n, n)\<close> raises IndexError.
\<close>

definition py_index :: "nat \<Rightarrow> int \<Rightarrow> error + nat" where
  "py_index n i =
     (if 0 \<le> i \<and> i < int n then Inr (nat i)
      else if - int n \<le> i \<and> i < 0 then Inr (nat (i + int n))
      else Inl IndexError)"

text \<open>\<^verbatim>\<open>a[i, j]\<close> and \<^verbatim>\<open>a[(i, j)]\<close> as a read.\<close>

definition nd_get :: "ndarray \<Rightarrow> int \<times> int \<Rightarrow> error + int" where
  "nd_get a p =
     (case py_index (fst (shape a)) (fst p) of
        Inl e \<Rightarrow> Inl e
      | Inr i \<Rightarrow>
          (case py_index (snd (shape a)) (snd p) of
             Inl e \<Rightarrow> Inl e
           | Inr j \<Rightarrow> Inr (a ! i ! j)))"

text \<open>\<^verbatim>\<open>a[i, j] = v\<close> as a write; the result is the array's new contents.\<close>

definition nd_set :: "ndarray \<Rightarrow> int \<times> int \<Rightarrow> int \<Rightarrow> error + ndarray" where
  "nd_set a p v =
     (case py_index (fst (shape a)) (fst p) of
        Inl e \<Rightarrow> Inl e
      | Inr i \<Rightarrow>
          (case py_index (snd (shape a)) (snd p) of
             Inl e \<Rightarrow> Inl e
           | Inr j \<Rightarrow> Inr (a[i := (a ! i)[j := v]])))"

text \<open>\<^verbatim>\<open>np.zeros_like(a)\<close>: a new array of the same shape, every entry 0.\<close>

definition zeros_like :: "ndarray \<Rightarrow> ndarray" where
  "zeros_like a = map (map (\<lambda>_. 0)) a"

text \<open>
  \<^verbatim>\<open>np.argmin(costs)\<close>: a scan that keeps the first position of the least value
  (a later value replaces the best one only when strictly smaller); ValueError on an
  empty array.
\<close>

fun argmin_scan :: "nat \<Rightarrow> int \<Rightarrow> nat \<Rightarrow> int list \<Rightarrow> nat" where
  "argmin_scan bi bv k [] = bi"
| "argmin_scan bi bv k (x # xs) =
     (if x < bv then argmin_scan k x (Suc k) xs else argmin_scan bi bv (Suc k) xs)"

definition argmin :: "int list \<Rightarrow> error + nat" where
  "argmin xs = (case xs of [] \<Rightarrow> Inl ValueError | x # ys \<Rightarrow> Inr (argmin_scan 0 x 1 ys))"

text \<open>
  A \<^verbatim>\<open>for x in xs: body\<close> loop over a state: the body runs on each element
  in turn and the first exception ends the loop.
\<close>

fun for_each :: "'i list \<Rightarrow> ('i \<Rightarrow> 's \<Rightarrow> 'e + 's) \<Rightarrow> 's \<Rightarrow> 'e + 's" where
  "for_each [] body s = Inr s"
| "for_each (x # xs) body s =
     (case body x s of Inl e \<Rightarrow> Inl e | Inr s' \<Rightarrow> for_each xs body s')"

section \<open>The Denoiser (denoise\_predictions.py)\<close>

text \<open>\<^verbatim>\<open>np.logical_not(a-b).astype(int)\<close>: 1 when the difference is zero, else 0.\<close>

definition kronecker_delta :: "int \<Rightarrow> int \<Rightarrow> int" where
  "kronecker_delta a b = (if a - b = 0 then 1 else 0)"

text \<open>
  \<^verbatim>\<open>get_neighbors\<close>: the eight candidate index pairs, then a loop over the
  positions \<open>len-1, \<dots>, 0\<close> that deletes each pair lying outside the image.
  \<open>del_out_of_bounds k\<close> is the loop with the positions \<open>k-1, \<dots>, 0\<close> still to visit.
\<close>

fun del_out_of_bounds :: "nat \<Rightarrow> int \<Rightarrow> int \<Rightarrow> (int \<times> int) list \<Rightarrow> (int \<times> int) list" where
  "del_out_of_bounds 0 h w neighbors = neighbors"
| "del_out_of_bounds (Suc neighbor_i) h w neighbors =
     (let (sample_i, sample_j) = neighbors ! neighbor_i in
      if sample_i < 0 \<or> sample_i > h - 1 \<or> sample_j < 0 \<or> sample_j > w - 1
      then del_out_of_bounds neighbor_i h w
             (take neighbor_i neighbors @ drop (Suc neighbor_i) neighbors)
      else del_out_of_bounds neighbor_i h w neighbors)"

definition get_neighbors :: "int \<Rightarrow> int \<Rightarrow> int \<Rightarrow> int \<Rightarrow> (int \<times> int) list" where
  "get_neighbors i j h w =
     (let neighbors = [(i - 1, j - 1), (i - 1, j), (i - 1, j + 1), (i, j - 1), (i, j + 1),
                       (i + 1, j - 1), (i + 1, j), (i + 1, j + 1)]
      in del_out_of_bounds (length neighbors) h w neighbors)"

text \<open>The list comprehension \<^verbatim>\<open>[src[neighbor] for neighbor in neighbors]\<close>.\<close>

fun neighbor_values :: "ndarray \<Rightarrow> (int \<times> int) list \<Rightarrow> error + int list" where
  "neighbor_values src [] = Inr []"
| "neighbor_values src (neighbor # rest) =
     (case nd_get src neighbor of
        Inl e \<Rightarrow> Inl e
      | Inr v \<Rightarrow> (case neighbor_values src rest of Inl e \<Rightarrow> Inl e | Inr vs \<Rightarrow> Inr (v # vs)))"

definition cost :: "int \<Rightarrow> int \<Rightarrow> ndarray \<Rightarrow> (int \<times> int) list \<Rightarrow> error + int" where
  "cost dst_val src_val src neighbors =
     (case neighbor_values src neighbors of
        Inl e \<Rightarrow> Inl e
      | Inr neighbor_vals \<Rightarrow>
          Inr (- (1 * kronecker_delta dst_val src_val
                  + 10 * sum_list (map (kronecker_delta dst_val) neighbor_vals))))"

text \<open>
  The local variables of \<^verbatim>\<open>denoise_predictions\<close> together with the store:
  \<open>src\<close> and \<open>dst\<close> hold addresses, \<open>dst\<close> is unbound until the first epoch binds it,
  \<open>costs\<close> is the one cost vector allocated before the loops and reused for every cell.
\<close>

record frame =
  v_store :: store
  v_costs :: "int list"
  v_src :: addr
  v_dst :: "addr option"

type_synonym outcome = "(error \<times> store) + frame"

text \<open>\<^verbatim>\<open>costs[class_i] = cost(class_i, src[i,j], src, neighbors)\<close>\<close>

definition class_body :: "nat \<Rightarrow> nat \<Rightarrow> (int \<times> int) list \<Rightarrow> nat \<Rightarrow> frame \<Rightarrow> outcome" where
  "class_body i j neighbors class_i s =
     (case nd_get (v_store s ! v_src s) (int i, int j) of
        Inl e \<Rightarrow> Inl (e, v_store s)
      | Inr src_val \<Rightarrow>
          (case cost (int class_i) src_val (v_store s ! v_src s) neighbors of
             Inl e \<Rightarrow> Inl (e, v_store s)
           | Inr c \<Rightarrow>
               (case py_index (length (v_costs s)) (int class_i) of
                  Inl e \<Rightarrow> Inl (e, v_store s)
                | Inr k \<Rightarrow> Inr (s\<lparr>v_costs := (v_costs s)[k := c]\<rparr>))))"

text \<open>The body of the loop over \<open>j\<close>: neighbours, the class loop, then \<^verbatim>\<open>dst[i,j] = np.argmin(costs)\<close>.\<close>

definition cell_body :: "nat \<Rightarrow> nat \<Rightarrow> nat \<Rightarrow> nat \<Rightarrow> nat \<Rightarrow> frame \<Rightarrow> outcome" where
  "cell_body class_n h w i j s =
     (let neighbors = get_neighbors (int i) (int j) (int h) (int w) in
      case for_each [0..<class_n] (class_body i j neighbors) s of
        Inl e \<Rightarrow> Inl e
      | Inr s1 \<Rightarrow>
          (case argmin (v_costs s1) of
             Inl e \<Rightarrow> Inl (e, v_store s1)
           | Inr m \<Rightarrow>
               (case v_dst s1 of
                  None \<Rightarrow> Inl (UnboundLocalError, v_store s1)
                | Some d \<Rightarrow>
                    (case nd_set (v_store s1 ! d) (int i, int j) (int m) of
                       Inl e \<Rightarrow> Inl (e, v_store s1)
                     | Inr a \<Rightarrow> Inr (s1\<lparr>v_store := (v_store s1)[d := a]\<rparr>)))))"

text \<open>
  The body of the loop over \<open>epoch\<close>: \<open>dst\<close> is bound to a newly allocated zero array
  of the shape of \<open>src\<close>, the two loops over the cells run, and \<open>src\<close> is rebound to \<open>dst\<close>.
\<close>

definition epoch_body :: "nat \<Rightarrow> nat \<Rightarrow> nat \<Rightarrow> nat \<Rightarrow> frame \<Rightarrow> outcome" where
  "epoch_body class_n h w epoch s =
     (let s0 = s\<lparr>v_store := v_store s @ [zeros_like (v_store s ! v_src s)],
                 v_dst := Some (length (v_store s))\<rparr> in
      case for_each [0..<h] (\<lambda>i. for_each [0..<w] (cell_body class_n h w i)) s0 of
        Inl e \<Rightarrow> Inl e
      | Inr s1 \<Rightarrow>
          (case v_dst s1 of
             None \<Rightarrow> Inl (UnboundLocalError, v_store s1)
           | Some d \<Rightarrow> Inr (s1\<lparr>v_src := d\<rparr>)))"

text \<open>The loop \<^verbatim>\<open>for epoch in range(epochs)\<close>, from the frame the function starts with.\<close>

definition run_epochs :: "store \<Rightarrow> addr \<Rightarrow> nat \<Rightarrow> nat \<Rightarrow> outcome" where
  "run_epochs H src class_n epochs =
     (let (h, w) = shape (H ! src) in
      for_each [0..<epochs] (epoch_body class_n h w)
        \<lparr>v_store = H, v_costs = replicate class_n 0, v_src = src, v_dst = None\<rparr>)"

text \<open>
  \<^verbatim>\<open>denoise_predictions(src, class_n, epochs)\<close>, called with the store \<open>H\<close> and the
  address \<open>src\<close> of the input array. \<^verbatim>\<open>np.zeros((class_n))\<close> raises ValueError for a
  negative \<open>class_n\<close>; the final \<^verbatim>\<open>return dst\<close> raises UnboundLocalError when no
  epoch has bound \<open>dst\<close>. A normal return gives the store and the address returned.
\<close>

definition denoise_predictions :: "store \<Rightarrow> addr \<Rightarrow> int \<Rightarrow> nat \<Rightarrow> (error \<times> store) + (store \<times> addr)" where
  "denoise_predictions H src class_n epochs =
     (if class_n < 0 then Inl (ValueError, H)
      else
        (case run_epochs H src (nat class_n) epochs of
           Inl e \<Rightarrow> Inl e
         | Inr s \<Rightarrow>
             (case v_dst s of
                None \<Rightarrow> Inl (UnboundLocalError, v_store s)
              | Some d \<Rightarrow> Inr (v_store s, d))))"

text \<open>The contents of the array a call returns, or the exception it raises.\<close>

definition denoised :: "store \<Rightarrow> addr \<Rightarrow> int \<Rightarrow> nat \<Rightarrow> error + ndarray" where
  "denoised H src class_n epochs =
     (case denoise_predictions H src class_n epochs of
        Inl (e, _) \<Rightarrow> Inl e
      | Inr (H', d) \<Rightarrow> Inr (H' ! d))"

section \<open>The Denoiser as the specification words it\<close>

text \<open>
  Chebyshev distance between two cells, the neighbourhood of a cell in an \<open>h \<times> w\<close>
  grid (the in-bounds cells at distance 1), the cost of a candidate class \<open>c\<close> at a cell
  with unary weight 1 and pairwise weight 10, the label chosen for a cell (the smallest
  class index of minimal cost) and the grid one epoch produces from the pre-epoch grid.
  These follow the specification, not the code.
\<close>

definition chebyshev :: "int \<times> int \<Rightarrow> int \<times> int \<Rightarrow> int" where
  "chebyshev p q = max \<bar>fst p - fst q\<bar> \<bar>snd p - snd q\<bar>"

definition Neighborhood :: "nat \<Rightarrow> nat \<Rightarrow> int \<times> int \<Rightarrow> (int \<times> int) set" where
  "Neighborhood h w p = Set.filter (\<lambda>q. chebyshev q p = 1) ({0..<int h} \<times> {0..<int w})"

definition label_at :: "ndarray \<Rightarrow> int \<times> int \<Rightarrow> int" where
  "label_at L p = L ! nat (fst p) ! nat (snd p)"

definition indicator :: "bool \<Rightarrow> int" where
  "indicator b = (if b then 1 else 0)"

definition spec_cost :: "ndarray \<Rightarrow> int \<times> int \<Rightarrow> nat \<Rightarrow> int" where
  "spec_cost L p c =
     - (1 * indicator (int c = label_at L p)
        + 10 * (\<Sum>n \<in> Neighborhood (fst (shape L)) (snd (shape L)) p.
                  indicator (int c = label_at L n)))"

definition spec_label :: "nat \<Rightarrow> ndarray \<Rightarrow> int \<times> int \<Rightarrow> nat" where
  "spec_label class_n L p =
     (case filter (\<lambda>c. list_all (\<lambda>c'. spec_cost L p c \<le> spec_cost L p c') [0..<class_n])
             [0..<class_n] of
        [] \<Rightarrow> 0
      | c # _ \<Rightarrow> c)"

definition spec_epoch :: "nat \<Rightarrow> ndarray \<Rightarrow> ndarray" where
  "spec_epoch class_n L =
     map (\<lambda>i. map (\<lambda>j. int (spec_label class_n L (int i, int j))) [0..<snd (shape L)])
       [0..<fst (shape L)]"

section \<open>Batched classification and assembly (generate\_predictions.py)\<close>

text \<open>
  \<^verbatim>\<open>xrange(start, stop, step)\<close> for non-negative arguments: the values
  \<open>start, start + step, \<dots>\<close> below \<open>stop\<close>; a zero step raises ValueError.
\<close>

definition xrange :: "nat \<Rightarrow> nat \<Rightarrow> nat \<Rightarrow> error + nat list" where
  "xrange start stop step =
     (if step = 0 then Inl ValueError
      else Inr (map (\<lambda>k. start + k * step) [0..<(stop - start + step - 1) div step]))"

text \<open>The slice \<^verbatim>\<open>xs[a:b]\<close> for \<open>0 \<le> a\<close> and \<open>0 \<le> b\<close>; bounds beyond the end are clipped.\<close>

definition slice :: "'a list \<Rightarrow> nat \<Rightarrow> nat \<Rightarrow> 'a list" where
  "slice xs a b = take (b - a) (drop a xs)"

text \<open>
  The numpy slice assignment \<^verbatim>\<open>xs[a:b] = vs\<close> on a one-dimensional array: the target is
  the clipped slice; \<open>vs\<close> must have the target's length, or length 1 (it is then broadcast);
  any other length raises ValueError.
\<close>

definition slice_assign :: "int list \<Rightarrow> nat \<Rightarrow> nat \<Rightarrow> int list \<Rightarrow> error + int list" where
  "slice_assign xs a b vs =
     (let lo = min a (length xs); hi = max lo (min b (length xs)); t = hi - lo in
      if length vs = t then Inr (take lo xs @ vs @ drop hi xs)
      else if length vs = 1 then Inr (take lo xs @ replicate t (hd vs) @ drop hi xs)
      else Inl ValueError)"

text \<open>
  The locals of the batch loop of one block: the label vector \<open>overlay_predictions\<close> and the
  write position \<open>overlay_prediction_i\<close>. The classifier (\<^verbatim>\<open>classifier.classify\<close>, an
  external collaborator) is a parameter: a function from a batch of tiles to labels.
\<close>

record batch_state =
  overlay_predictions :: "int list"
  overlay_prediction_i :: nat

text \<open>
  The body of \<^verbatim>\<open>for sub_i in xrange(0, len(subs), mb_n)\<close>: the batch is the
  slice \<^verbatim>\<open>subs[sub_i:sub_i+mb_n]\<close>, its labels are assigned to the slice of
  \<open>overlay_predictions\<close> starting at \<open>overlay_prediction_i\<close>, which then advances by the
  batch's length.
\<close>

definition batch_body :: "('t list \<Rightarrow> int list) \<Rightarrow> 't list \<Rightarrow> nat \<Rightarrow> nat \<Rightarrow> batch_state \<Rightarrow> error + batch_state" where
  "batch_body classify subs mb_n sub_i s =
     (let batch = slice subs sub_i (sub_i + mb_n) in
      case slice_assign (overlay_predictions s) (overlay_prediction_i s)
             (overlay_prediction_i s + length batch) (classify batch) of
        Inl e \<Rightarrow> Inl e
      | Inr v \<Rightarrow> Inr \<lparr>overlay_predictions = v,
                      overlay_prediction_i = overlay_prediction_i s + length batch\<rparr>)"

text \<open>
  The classification of one block: \<open>overlay_predictions\<close> starts as \<open>n_tiles\<close> zeros
  (\<open>n_tiles\<close> is \<^verbatim>\<open>(sub_img_h//sub_h)*(sub_img_w//sub_w)\<close>), the loop runs over the
  flat tile sequence \<open>subs\<close>, and the vector is the result.
\<close>

definition classify_block :: "('t list \<Rightarrow> int list) \<Rightarrow> 't list \<Rightarrow> nat \<Rightarrow> nat \<Rightarrow> error + int list" where
  "classify_block classify subs mb_n n_tiles =
     (case xrange 0 (length subs) mb_n of
        Inl e \<Rightarrow> Inl e
      | Inr starts \<Rightarrow>
          (case for_each starts (batch_body classify subs mb_n)
                  \<lparr>overlay_predictions = replicate n_tiles 0, overlay_prediction_i = 0\<rparr> of
             Inl e \<Rightarrow> Inl e
           | Inr s \<Rightarrow> Inr (overlay_predictions s)))"

text \<open>The batches the loop passes to the classifier, in order.\<close>

definition batches :: "'t list \<Rightarrow> nat \<Rightarrow> 't list list" where
  "batches subs mb_n =
     map (\<lambda>sub_i. slice subs sub_i (sub_i + mb_n))
       (case xrange 0 (length subs) mb_n of Inl e \<Rightarrow> [] | Inr starts \<Rightarrow> starts)"

text \<open>
  \<^verbatim>\<open>np.reshape(v, (rows, cols))\<close> of a flat vector, in row-major order; ValueError
  when the vector does not have \<open>rows * cols\<close> entries.
\<close>

definition reshape :: "int list \<Rightarrow> nat \<Rightarrow> nat \<Rightarrow> error + ndarray" where
  "reshape v rows cols =
     (if length v = rows * cols
      then Inr (map (\<lambda>i. slice v (i * cols) (i * cols + cols)) [0..<rows])
      else Inl ValueError)"

text \<open>
  Modelled from the spec: \<^verbatim>\<open>get_concatenated_row\<close> of \<^verbatim>\<open>img_handler.py\<close>, which is
  not among the sources. Specification 4.4, step 2: block matrices of a block-row are
  concatenated left to right; different row counts are a fatal mismatch.
\<close>

definition get_concatenated_row :: "ndarray \<times> ndarray \<Rightarrow> error + ndarray" where
  "get_concatenated_row p =
     (if length (fst p) = length (snd p) then Inr (map2 (@) (fst p) (snd p))
      else Inl ValueError)"

text \<open>
  Modelled from the spec: \<^verbatim>\<open>get_concatenated_col\<close> of \<^verbatim>\<open>img_handler.py\<close>, which is
  not among the sources. Specification 4.4, step 3: the block-row matrices are concatenated
  top to bottom; different column counts are a fatal mismatch.
\<close>

definition get_concatenated_col :: "ndarray list \<Rightarrow> error + ndarray" where
  "get_concatenated_col ms =
     (if list_all (\<lambda>m. snd (shape m) = snd (shape (hd ms))) ms then Inr (concat ms)
      else Inl ValueError)"

text \<open>
  The assembly of one image in \<^verbatim>\<open>generate_predictions\<close>: \<open>predictions\<close> starts as
  \<open>img_divide_factor\<close> empty arrays; for every block \<open>(row_i, col_i)\<close> the block's flat label
  vector is reshaped to the block's tile-grid shape and stored in (first column) or
  concatenated onto (later columns) entry \<open>row_i\<close>; at the end the entries are concatenated
  top to bottom. \<open>block row_i col_i\<close> gives the block's flat label vector and tile-grid shape.
\<close>

definition block_body :: "(nat \<Rightarrow> nat \<Rightarrow> int list \<times> nat \<times> nat) \<Rightarrow> nat \<Rightarrow> nat \<Rightarrow> ndarray list \<Rightarrow> error + ndarray list" where
  "block_body block row_i col_i predictions =
     (case block row_i col_i of (flat, rows, cols) \<Rightarrow>
        (case reshape flat rows cols of
           Inl e \<Rightarrow> Inl e
         | Inr overlay \<Rightarrow>
             if col_i = 0 then Inr (predictions[row_i := overlay])
             else (case get_concatenated_row (predictions ! row_i, overlay) of
                     Inl e \<Rightarrow> Inl e
                   | Inr r \<Rightarrow> Inr (predictions[row_i := r]))))"

definition assemble :: "nat \<Rightarrow> (nat \<Rightarrow> nat \<Rightarrow> int list \<times> nat \<times> nat) \<Rightarrow> error + ndarray" where
  "assemble img_divide_factor block =
     (case for_each [0..<img_divide_factor]
             (\<lambda>row_i. for_each [0..<img_divide_factor] (block_body block row_i))
             (replicate img_divide_factor []) of
        Inl e \<Rightarrow> Inl e
      | Inr predictions \<Rightarrow> get_concatenated_col predictions)"

section \<open>Predicates used in the proofs\<close>

text \<open>
  \<open>in_bounds\<close> is the negation of the deletion test of \<^verbatim>\<open>get_neighbors\<close>;
  \<open>first_min zs m\<close> says that \<open>m\<close> is the first position of the least element of \<open>zs\<close>;
  \<open>filling\<close> is the invariant of the two cell loops of an epoch that started in store \<open>H\<close>
  with \<open>src\<close> at address \<open>a\<close>: the old arrays are untouched, \<open>dst\<close> is the array allocated last,
  and the cells before \<open>(i, j)\<close> in row-major order hold their new labels;
  \<open>after_epochs\<close> is the invariant of the loop over the epochs, \<open>epoch_grids\<close> the arrays
  the first \<open>k\<close> epochs allocate.
\<close>

definition in_bounds :: "int \<Rightarrow> int \<Rightarrow> int \<times> int \<Rightarrow> bool" where
  "in_bounds h w p = (0 \<le> fst p \<and> fst p \<le> h - 1 \<and> 0 \<le> snd p \<and> snd p \<le> w - 1)"

definition first_min :: "int list \<Rightarrow> nat \<Rightarrow> bool" where
  "first_min zs m \<longleftrightarrow>
     m < length zs \<and> (\<forall>k < length zs. zs ! m \<le> zs ! k) \<and> (\<forall>k < m. zs ! m < zs ! k)"

definition filling :: "store \<Rightarrow> addr \<Rightarrow> nat \<Rightarrow> nat \<Rightarrow> nat \<Rightarrow> nat \<Rightarrow> nat \<Rightarrow> frame \<Rightarrow> bool" where
  "filling H a class_n h w i j t \<longleftrightarrow>
     v_src t = a \<and> v_dst t = Some (length H) \<and> length (v_costs t) = class_n \<and>
     length (v_store t) = Suc (length H) \<and> take (length H) (v_store t) = H \<and>
     length (v_store t ! length H) = h \<and>
     (\<forall>r < h. length (v_store t ! length H ! r) = w) \<and>
     (\<forall>r < h. \<forall>c < w. r < i \<or> (r = i \<and> c < j) \<longrightarrow>
        v_store t ! length H ! r ! c = int (spec_label class_n (H ! a) (int r, int c)))"

definition epoch_grids :: "nat \<Rightarrow> ndarray \<Rightarrow> nat \<Rightarrow> ndarray list" where
  "epoch_grids class_n L k = map (\<lambda>m. (spec_epoch class_n ^^ Suc m) L) [0..<k]"

definition after_epochs :: "store \<Rightarrow> addr \<Rightarrow> nat \<Rightarrow> nat \<Rightarrow> frame \<Rightarrow> bool" where
  "after_epochs H a class_n k t \<longleftrightarrow>
     v_store t = H @ epoch_grids class_n (H ! a) k \<and>
     v_src t = (if k = 0 then a else length H + k - 1) \<and>
     v_dst t = (if k = 0 then None else Some (length H + k - 1)) \<and>
     length (v_costs t) = class_n"

text \<open>
  \<open>keeps H t\<close>: in frame \<open>t\<close> the arrays of the store \<open>H\<close> a call started with are all
  still there with their contents, and \<open>dst\<close>, once bound, refers to an array allocated since;
  \<open>keeps_outcome\<close> lifts this to a loop's outcome (on an exception, to the store it carries).
\<close>

definition keeps :: "store \<Rightarrow> frame \<Rightarrow> bool" where
  "keeps H t \<longleftrightarrow>
     take (length H) (v_store t) = H \<and>
     (\<forall>d. v_dst t = Some d \<longrightarrow> length H \<le> d \<and> d < length (v_store t))"

definition keeps_outcome :: "store \<Rightarrow> outcome \<Rightarrow> bool" where
  "keeps_outcome H r =
     (case r of Inl (e, H') \<Rightarrow> take (length H) H' = H | Inr t \<Rightarrow> keeps H t)"

text \<open>The grid of the specification's outlier example: class 0 everywhere but the centre.\<close>

definition outlier_grid :: ndarray where
  "outlier_grid = [[0, 0, 0], [0, 1, 0], [0, 0, 0]]"

text \<open>
  \<open>n_batches n m\<close> is the number of iterations of \<^verbatim>\<open>xrange(0, n, m)\<close>; \<open>batching\<close> is the
  invariant of the batch loop after \<open>k\<close> batches: the write position is \<open>k * m\<close> clipped to the
  number of tiles, and the vector up to it is the concatenation of the first \<open>k\<close> classifier
  outputs.
\<close>

definition n_batches :: "nat \<Rightarrow> nat \<Rightarrow> nat" where
  "n_batches n m = (n + m - 1) div m"

definition batching :: "('t list \<Rightarrow> int list) \<Rightarrow> 't list \<Rightarrow> nat \<Rightarrow> nat \<Rightarrow> batch_state \<Rightarrow> bool" where
  "batching classify subs m k s \<longleftrightarrow>
     overlay_prediction_i s = min (k * m) (length subs) \<and>
     length (overlay_predictions s) = length subs \<and>
     take (overlay_prediction_i s) (overlay_predictions s)
       = concat (map classify (take k (batches subs m)))"

section \<open>Loops\<close>

text \<open>A loop over \<open>range(n)\<close> establishes an invariant indexed by the number of iterations done.\<close>

lemma for_each_snoc:
  "for_each (xs @ [x]) body s =
     (case for_each xs body s of Inl e \<Rightarrow> Inl e | Inr s' \<Rightarrow> body x s')"
  by (induction xs arbitrary: s) (auto split: sum.splits)

lemma for_each_upt_rule:
  assumes init: "P 0 s"
    and step: "\<And>k t. k < n \<Longrightarrow> P k t \<Longrightarrow> \<exists>t'. body k t = Inr t' \<and> P (Suc k) t'"
  shows "\<exists>t. for_each [0..<n] body s = Inr t \<and> P n t"
  using step
proof (induction n)
  case 0
  then show ?case using init by simp
next
  case (Suc n)
  then obtain t where t: "for_each [0..<n] body s = Inr t" "P n t"
    by (meson less_Suc_eq)
  from Suc.prems[of n t] t obtain t' where "body n t = Inr t'" "P (Suc n) t'"
    by auto
  with t show ?case by (simp add: for_each_snoc)
qed

section \<open>Neighbours\<close>

text \<open>The backwards deletion loop keeps exactly the in-bounds candidates, in their order.\<close>

lemma del_out_of_bounds_filter:
  "k \<le> length ns \<Longrightarrow>
   del_out_of_bounds k h w ns = filter (in_bounds h w) (take k ns) @ drop k ns"
proof (induction k arbitrary: ns)
  case 0
  then show ?case by simp
next
  case (Suc k)
  then have k: "k < length ns" by simp
  obtain a b where ab: "ns ! k = (a, b)" by (cases "ns ! k")
  have tk: "take (Suc k) ns = take k ns @ [ns ! k]"
    using k by (simp add: take_Suc_conv_app_nth)
  show ?case
  proof (cases "in_bounds h w (a, b)")
    case True
    then have "del_out_of_bounds (Suc k) h w ns = del_out_of_bounds k h w ns"
      using ab by (auto simp: in_bounds_def)
    also have "\<dots> = filter (in_bounds h w) (take k ns) @ drop k ns"
      using Suc.IH[of ns] k by simp
    also have "drop k ns = ns ! k # drop (Suc k) ns"
      using k by (simp add: Cons_nth_drop_Suc)
    finally show ?thesis using True ab tk by simp
  next
    case False
    let ?ns' = "take k ns @ drop (Suc k) ns"
    have "del_out_of_bounds (Suc k) h w ns = del_out_of_bounds k h w ?ns'"
      using ab False by (auto simp: in_bounds_def)
    also have "\<dots> = filter (in_bounds h w) (take k ?ns') @ drop k ?ns'"
      using Suc.IH[of ?ns'] k by simp
    also have "take k ?ns' = take k ns" using k by simp
    also have "drop k ?ns' = drop (Suc k) ns" using k by simp
    finally show ?thesis using False ab tk by simp
  qed
qed

lemma get_neighbors_filter:
  "get_neighbors i j h w =
     filter (in_bounds h w)
       [(i - 1, j - 1), (i - 1, j), (i - 1, j + 1), (i, j - 1), (i, j + 1),
        (i + 1, j - 1), (i + 1, j), (i + 1, j + 1)]"
  unfolding get_neighbors_def Let_def
  by (subst del_out_of_bounds_filter) simp_all

lemma distinct_get_neighbors: "distinct (get_neighbors i j h w)"
  unfolding get_neighbors_filter by (rule distinct_filter) simp

lemma max_abs_one:
  fixes x y :: int
  shows "max \<bar>x\<bar> \<bar>y\<bar> = 1 \<longleftrightarrow>
     (x = -1 \<or> x = 0 \<or> x = 1) \<and> (y = -1 \<or> y = 0 \<or> y = 1) \<and> \<not> (x = 0 \<and> y = 0)"
  by (simp add: max_def abs_if) arith

lemma chebyshev_one_iff:
  "chebyshev (a, b) (i, j) = 1 \<longleftrightarrow>
     (a, b) \<in> set [(i - 1, j - 1), (i - 1, j), (i - 1, j + 1), (i, j - 1), (i, j + 1),
        (i + 1, j - 1), (i + 1, j), (i + 1, j + 1)]"
proof -
  have x: "a - i = -1 \<longleftrightarrow> a = i - 1" "a - i = 0 \<longleftrightarrow> a = i" "a - i = 1 \<longleftrightarrow> a = i + 1"
    by arith+
  have y: "b - j = -1 \<longleftrightarrow> b = j - 1" "b - j = 0 \<longleftrightarrow> b = j" "b - j = 1 \<longleftrightarrow> b = j + 1"
    by arith+
  show ?thesis
    unfolding chebyshev_def fst_conv snd_conv max_abs_one x y
    by (simp only: set_simps insert_iff empty_iff prod.inject) auto
qed

lemma set_get_neighbors:
  "set (get_neighbors i j (int h) (int w)) = Neighborhood h w (i, j)"
proof (rule set_eqI)
  fix p :: "int \<times> int"
  obtain a b where p: "p = (a, b)" by (cases p)
  have "p \<in> Neighborhood h w (i, j) \<longleftrightarrow>
          (0 \<le> a \<and> a < int h \<and> 0 \<le> b \<and> b < int w) \<and> chebyshev (a, b) (i, j) = 1"
    unfolding Neighborhood_def p by simp
  also have "\<dots> \<longleftrightarrow> in_bounds (int h) (int w) (a, b) \<and> chebyshev (a, b) (i, j) = 1"
    unfolding in_bounds_def by auto
  also have "\<dots> \<longleftrightarrow> p \<in> set (get_neighbors i j (int h) (int w))"
    unfolding get_neighbors_filter set_filter chebyshev_one_iff p by blast
  finally show "p \<in> set (get_neighbors i j (int h) (int w)) \<longleftrightarrow> p \<in> Neighborhood h w (i, j)"
    by simp
qed

section \<open>Array reads and the cost function\<close>

lemma rect_rows:
  assumes "rect L" "shape L = (h, w)"
  shows "length L = h" and "\<And>r. r < h \<Longrightarrow> length (L ! r) = w"
proof -
  show h: "length L = h" using assms(2) by (simp add: shape_def)
  fix r assume r: "r < h"
  then obtain x xs where L: "L = x # xs" using h by (cases L) auto
  then have w: "length x = w" using assms(2) by (simp add: shape_def)
  have "L ! r \<in> set L" using r h by simp
  then have "length (L ! r) = length (hd L)"
    using assms(1) by (simp add: rect_def list_all_iff)
  then show "length (L ! r) = w" using L w by simp
qed

lemma rectI:
  assumes "\<And>r. r < length L \<Longrightarrow> length (L ! r) = w"
  shows "rect L"
proof (cases L)
  case Nil
  then show ?thesis by (simp add: rect_def)
next
  case (Cons x xs)
  then have "length (hd L) = w" using assms[of 0] by simp
  then show ?thesis
    using assms by (auto simp: rect_def list_all_iff in_set_conv_nth)
qed

lemma shapeI:
  assumes "length L = h" "\<And>r. r < h \<Longrightarrow> length (L ! r) = w" "h = 0 \<Longrightarrow> w = 0"
  shows "shape L = (h, w)"
proof (cases L)
  case Nil
  then show ?thesis using assms by (simp add: shape_def)
next
  case (Cons x xs)
  then have "0 < h" using assms(1) by auto
  from assms(2)[OF this] Cons show ?thesis using assms(1) by (simp add: shape_def)
qed

lemma py_index_nat: "k < n \<Longrightarrow> py_index n (int k) = Inr k"
  by (simp add: py_index_def)

lemma py_index_in: "0 \<le> a \<Longrightarrow> a < int n \<Longrightarrow> py_index n a = Inr (nat a)"
  by (simp add: py_index_def)

lemma nd_get_in_bounds:
  assumes "shape L = (h, w)" "in_bounds (int h) (int w) p"
  shows "nd_get L p = Inr (label_at L p)"
  using assms
  by (simp add: nd_get_def label_at_def in_bounds_def py_index_in)

lemma neighbor_values_in_bounds:
  assumes "shape L = (h, w)" "\<forall>n \<in> set ns. in_bounds (int h) (int w) n"
  shows "neighbor_values L ns = Inr (map (label_at L) ns)"
  using assms(2)
  by (induction ns) (simp_all add: nd_get_in_bounds[OF assms(1)])

lemma get_neighbors_in_bounds:
  "n \<in> set (get_neighbors i j h w) \<Longrightarrow> in_bounds h w n"
  unfolding get_neighbors_filter set_filter by blast

lemma kronecker_delta_indicator: "kronecker_delta a b = indicator (a = b)"
  by (simp add: kronecker_delta_def indicator_def)

lemma cost_spec_cost:
  assumes "shape L = (h, w)"
  shows "cost (int c) (label_at L (i, j)) L (get_neighbors i j (int h) (int w))
           = Inr (spec_cost L (i, j) c)"
proof -
  let ?ns = "get_neighbors i j (int h) (int w)"
  have nv: "neighbor_values L ?ns = Inr (map (label_at L) ?ns)"
    by (rule neighbor_values_in_bounds[OF assms]) (simp add: get_neighbors_in_bounds)
  have "sum_list (map (kronecker_delta (int c)) (map (label_at L) ?ns))
          = sum_list (map (\<lambda>n. indicator (int c = label_at L n)) ?ns)"
    by (simp add: kronecker_delta_indicator comp_def)
  also have "\<dots> = (\<Sum>n \<in> set ?ns. indicator (int c = label_at L n))"
    by (rule sum_list_distinct_conv_sum_set) (rule distinct_get_neighbors)
  finally have s: "sum_list (map (kronecker_delta (int c)) (map (label_at L) ?ns))
          = (\<Sum>n \<in> Neighborhood h w (i, j). indicator (int c = label_at L n))"
    by (simp add: set_get_neighbors)
  show ?thesis
    unfolding cost_def nv spec_cost_def assms sum.case fst_conv snd_conv s
    by (simp add: kronecker_delta_indicator)
qed

section \<open>The first position of the least cost\<close>

lemma first_min_snoc_keep:
  assumes "first_min ys m" "ys ! m \<le> x"
  shows "first_min (ys @ [x]) m"
  using assms unfolding first_min_def
  by (auto simp: nth_append)

lemma first_min_snoc_new:
  assumes "first_min ys m" "x < ys ! m"
  shows "first_min (ys @ [x]) (length ys)"
  using assms unfolding first_min_def
  by (fastforce simp: nth_append)

lemma argmin_scan_first_min:
  "first_min ys bi \<Longrightarrow> bv = ys ! bi \<Longrightarrow> k = length ys \<Longrightarrow>
   first_min (ys @ xs) (argmin_scan bi bv k xs)"
proof (induction xs arbitrary: ys bi bv k)
  case Nil
  then show ?case by simp
next
  case (Cons x xs)
  show ?case
  proof (cases "x < bv")
    case True
    have "first_min (ys @ [x]) k"
      using first_min_snoc_new[OF Cons.prems(1)] True Cons.prems by simp
    from Cons.IH[OF this, of x "Suc k"] Cons.prems True
    show ?thesis by simp
  next
    case False
    have "first_min (ys @ [x]) bi"
      using first_min_snoc_keep[OF Cons.prems(1)] False Cons.prems by simp
    moreover have "bv = (ys @ [x]) ! bi"
      using Cons.prems by (simp add: first_min_def nth_append)
    ultimately show ?thesis
      using Cons.IH[of "ys @ [x]" bi bv "Suc k"] Cons.prems False by simp
  qed
qed

lemma argmin_first_min:
  assumes "xs \<noteq> []"
  shows "\<exists>m. argmin xs = Inr m \<and> first_min xs m"
proof -
  obtain x ys where xs: "xs = x # ys" using assms by (cases xs) auto
  have "first_min [x] 0" by (simp add: first_min_def)
  from argmin_scan_first_min[OF this, of x 1 ys]
  show ?thesis by (simp add: argmin_def xs)
qed

lemma first_min_unique: "first_min zs m \<Longrightarrow> first_min zs m' \<Longrightarrow> m = m'"
  unfolding first_min_def
  by (metis linorder_neqE_nat not_less)

lemma filter_upt_first:
  assumes "m < n" "P m" "\<forall>k < m. \<not> P k"
  shows "\<exists>rest. filter P [0..<n] = m # rest"
proof -
  have "[0..<n] = [0..<m] @ m # [Suc m..<n]"
    using assms(1) by (metis le_add_diff_inverse less_imp_le_nat upt_add_eq_append upt_conv_Cons zero_le)
  moreover have "filter P [0..<m] = []"
    using assms(3) by (simp add: filter_empty_conv)
  ultimately show ?thesis using assms(2) by simp
qed

lemma spec_label_first_min:
  assumes "first_min (map (spec_cost L p) [0..<class_n]) m"
  shows "spec_label class_n L p = m"
proof -
  let ?P = "\<lambda>c. list_all (\<lambda>c'. spec_cost L p c \<le> spec_cost L p c') [0..<class_n]"
  from assms have m: "m < class_n"
    and le: "\<forall>k < class_n. spec_cost L p m \<le> spec_cost L p k"
    and lt: "\<forall>k < m. spec_cost L p m < spec_cost L p k"
    by (auto simp: first_min_def)
  have Pm: "?P m" using le by (simp add: list_all_iff)
  have "\<forall>k < m. \<not> ?P k"
  proof (intro allI impI)
    fix k assume k: "k < m"
    then have "spec_cost L p m < spec_cost L p k" using lt by simp
    then have "\<not> spec_cost L p k \<le> spec_cost L p m" by simp
    then show "\<not> ?P k" using m by (auto simp: list_all_iff)
  qed
  from filter_upt_first[of m class_n ?P, OF m Pm this]
  show ?thesis by (auto simp: spec_label_def)
qed

lemma argmin_spec_costs:
  assumes "0 < class_n"
  shows "argmin (map (spec_cost L p) [0..<class_n]) = Inr (spec_label class_n L p)"
proof -
  have "map (spec_cost L p) [0..<class_n] \<noteq> []" using assms by simp
  from argmin_first_min[OF this] obtain m
    where "argmin (map (spec_cost L p) [0..<class_n]) = Inr m"
      and "first_min (map (spec_cost L p) [0..<class_n]) m" by blast
  then show ?thesis using spec_label_first_min by simp
qed

lemma spec_label_less: "0 < class_n \<Longrightarrow> spec_label class_n L p < class_n"
proof -
  assume "0 < class_n"
  then have "map (spec_cost L p) [0..<class_n] \<noteq> []" by simp
  from argmin_first_min[OF this] obtain m
    where fm: "first_min (map (spec_cost L p) [0..<class_n]) m" by blast
  then have "m < class_n" by (simp add: first_min_def)
  then show ?thesis using spec_label_first_min[OF fm] by simp
qed

section \<open>One epoch\<close>

text \<open>The class loop overwrites every entry of the shared cost vector, so what an earlier cell left there never matters.\<close>

lemma class_body_step:
  assumes sh: "shape (v_store s ! v_src s) = (h, w)"
    and ij: "i < h" "j < w"
    and k: "k < length (v_costs s)"
  shows "class_body i j (get_neighbors (int i) (int j) (int h) (int w)) k s
           = Inr (s\<lparr>v_costs := (v_costs s)[k := spec_cost (v_store s ! v_src s) (int i, int j) k]\<rparr>)"
proof -
  have ib: "in_bounds (int h) (int w) (int i, int j)"
    using ij by (simp add: in_bounds_def)
  show ?thesis
    unfolding class_body_def nd_get_in_bounds[OF sh ib] sum.case
      cost_spec_cost[OF sh] py_index_nat[OF k]
    by simp
qed

lemma class_loop:
  assumes sh: "shape (v_store s ! v_src s) = (h, w)"
    and ij: "i < h" "j < w"
    and len: "length (v_costs s) = class_n"
  shows "for_each [0..<class_n] (class_body i j (get_neighbors (int i) (int j) (int h) (int w))) s
           = Inr (s\<lparr>v_costs := map (spec_cost (v_store s ! v_src s) (int i, int j)) [0..<class_n]\<rparr>)"
proof -
  let ?f = "spec_cost (v_store s ! v_src s) (int i, int j)"
  let ?body = "class_body i j (get_neighbors (int i) (int j) (int h) (int w))"
  let ?P = "\<lambda>k t. t = s\<lparr>v_costs := map ?f [0..<k] @ drop k (v_costs s)\<rparr>"
  have "\<exists>t. for_each [0..<class_n] ?body s = Inr t \<and> ?P class_n t"
  proof (rule for_each_upt_rule)
    show "?P 0 s" by simp
  next
    fix k t assume k: "k < class_n" and t: "?P k t"
    have st: "v_store t = v_store s" "v_src t = v_src s" using t by simp_all
    have kl: "k < length (v_costs t)" using t k len by simp
    have upd: "(map ?f [0..<k] @ drop k (v_costs s))[k := ?f k]
                 = map ?f [0..<Suc k] @ drop (Suc k) (v_costs s)"
    proof -
      have "drop k (v_costs s) = v_costs s ! k # drop (Suc k) (v_costs s)"
        using k len by (simp add: Cons_nth_drop_Suc)
      then show ?thesis by (simp add: list_update_append)
    qed
    have "?body k t = Inr (t\<lparr>v_costs := (v_costs t)[k := ?f k]\<rparr>)"
      using class_body_step[of t h w i j k] sh ij kl st by simp
    also have "t\<lparr>v_costs := (v_costs t)[k := ?f k]\<rparr>
                 = s\<lparr>v_costs := map ?f [0..<Suc k] @ drop (Suc k) (v_costs s)\<rparr>"
      using t upd by simp
    finally show "\<exists>t'. ?body k t = Inr t' \<and> ?P (Suc k) t'" by blast
  qed
  then show ?thesis using len by simp
qed

lemma nd_set_in_bounds:
  assumes "shape D = (h, w)" "i < h" "j < w"
  shows "nd_set D (int i, int j) v = Inr (D[i := (D ! i)[j := v]])"
  using assms by (simp add: nd_set_def py_index_nat)

lemma filling_old_array:
  assumes "filling H a class_n h w i j t" "b < length H"
  shows "v_store t ! b = H ! b"
proof -
  have "take (length H) (v_store t) ! b = v_store t ! b"
    using assms(2) by simp
  then show ?thesis using assms(1) by (simp add: filling_def)
qed

lemma cell_body_step:
  assumes inv: "filling H a class_n h w i j t"
    and a: "a < length H" and sh: "shape (H ! a) = (h, w)"
    and ij: "i < h" "j < w" and cn: "0 < class_n"
  shows "\<exists>t'. cell_body class_n h w i j t = Inr t' \<and> filling H a class_n h w i (Suc j) t'"
proof -
  let ?d = "length H"
  let ?L = "H ! a"
  let ?D = "v_store t ! ?d"
  let ?m = "spec_label class_n ?L (int i, int j)"
  let ?D' = "?D[i := (?D ! i)[j := int ?m]]"
  let ?s1 = "t\<lparr>v_costs := map (spec_cost ?L (int i, int j)) [0..<class_n]\<rparr>"
  let ?t' = "?s1\<lparr>v_store := (v_store t)[?d := ?D']\<rparr>"
  from inv have src: "v_src t = a" and dst: "v_dst t = Some ?d"
    and lc: "length (v_costs t) = class_n" and ls: "length (v_store t) = Suc ?d"
    and old: "take ?d (v_store t) = H" and lD: "length ?D = h"
    and rows: "\<forall>r < h. length (?D ! r) = w"
    and filled: "\<forall>r < h. \<forall>c < w. r < i \<or> (r = i \<and> c < j) \<longrightarrow>
        ?D ! r ! c = int (spec_label class_n ?L (int r, int c))"
    by (simp_all add: filling_def)
  have La: "v_store t ! v_src t = ?L"
    using filling_old_array[OF inv a] src by simp
  have sh': "shape (v_store t ! v_src t) = (h, w)" using La sh by simp
  have loop: "for_each [0..<class_n]
                (class_body i j (get_neighbors (int i) (int j) (int h) (int w))) t = Inr ?s1"
    using class_loop[OF sh' ij lc] La by simp
  have am: "argmin (v_costs ?s1) = Inr ?m"
    using argmin_spec_costs[OF cn] by simp
  have shD: "shape ?D = (h, w)"
    using lD rows ij by (intro shapeI) auto
  have set: "nd_set (v_store ?s1 ! ?d) (int i, int j) (int ?m) = Inr ?D'"
    using nd_set_in_bounds[OF shD ij] by simp
  have run: "cell_body class_n h w i j t = Inr ?t'"
    unfolding cell_body_def Let_def loop sum.case am
    using dst set by simp
  have "filling H a class_n h w i (Suc j) ?t'"
    unfolding filling_def
  proof (intro conjI allI impI)
    show "v_src ?t' = a" using src by simp
    show "v_dst ?t' = Some ?d" using dst by simp
    show "length (v_costs ?t') = class_n" by simp
    show "length (v_store ?t') = Suc ?d" using ls by simp
    show "take ?d (v_store ?t') = H" using old by simp
    show "length (v_store ?t' ! ?d) = h" using ls lD by simp
  next
    fix r assume "r < h"
    then show "length (v_store ?t' ! ?d ! r) = w"
      using ls lD rows by (cases "r = i") simp_all
  next
    fix r c assume r: "r < h" and c: "c < w"
      and before: "r < i \<or> r = i \<and> c < Suc j"
    have D': "v_store ?t' ! ?d = ?D'" using ls by simp
    show "v_store ?t' ! ?d ! r ! c = int (spec_label class_n ?L (int r, int c))"
    proof (cases "r = i \<and> c = j")
      case True
      then show ?thesis unfolding D' using lD rows ij by simp
    next
      case False
      then have b: "r < i \<or> (r = i \<and> c < j)" using before by auto
      have "?D' ! r ! c = ?D ! r ! c"
        using False lD rows r by (cases "r = i") auto
      then show ?thesis unfolding D' using filled r c b by simp
    qed
  qed
  with run show ?thesis by blast
qed

lemma row_loop:
  assumes inv: "filling H a class_n h w i 0 t"
    and a: "a < length H" and sh: "shape (H ! a) = (h, w)"
    and i: "i < h" and cn: "0 < class_n"
  shows "\<exists>t'. for_each [0..<w] (cell_body class_n h w i) t = Inr t'
              \<and> filling H a class_n h w (Suc i) 0 t'"
proof -
  have "\<exists>t'. for_each [0..<w] (cell_body class_n h w i) t = Inr t'
              \<and> filling H a class_n h w i w t'"
    by (rule for_each_upt_rule[where P = "\<lambda>j. filling H a class_n h w i j"])
       (auto intro: inv cell_body_step[OF _ a sh i _ cn])
  then obtain t' where r: "for_each [0..<w] (cell_body class_n h w i) t = Inr t'"
    and f: "filling H a class_n h w i w t'" by blast
  have "filling H a class_n h w (Suc i) 0 t'"
    using f unfolding filling_def by (auto simp: less_Suc_eq)
  with r show ?thesis by blast
qed

lemma grid_loop:
  assumes inv: "filling H a class_n h w 0 0 t"
    and a: "a < length H" and sh: "shape (H ! a) = (h, w)" and cn: "0 < class_n"
  shows "\<exists>t'. for_each [0..<h] (\<lambda>i. for_each [0..<w] (cell_body class_n h w i)) t = Inr t'
              \<and> filling H a class_n h w h 0 t'"
  by (rule for_each_upt_rule[where P = "\<lambda>i. filling H a class_n h w i 0"])
     (auto intro: inv row_loop[OF _ a sh _ cn])

section \<open>The epochs\<close>

lemma spec_epoch_rows:
  assumes "shape L = (h, w)"
  shows "spec_epoch class_n L =
           map (\<lambda>i. map (\<lambda>j. int (spec_label class_n L (int i, int j))) [0..<w]) [0..<h]"
  using assms by (simp add: spec_epoch_def)

lemma shape_spec_epoch: "shape (spec_epoch class_n L) = shape L"
proof -
  obtain h w where sh: "shape L = (h, w)" by (cases "shape L")
  have "h = 0 \<Longrightarrow> w = 0" using sh by (cases L) (auto simp: shape_def)
  then have "shape (spec_epoch class_n L) = (h, w)"
    unfolding spec_epoch_rows[OF sh] by (intro shapeI) auto
  then show ?thesis using sh by simp
qed

lemma rect_spec_epoch: "rect (spec_epoch class_n L)"
  by (rule rectI[where w = "snd (shape L)"]) (simp add: spec_epoch_def)

lemma shape_funpow_spec_epoch: "shape ((spec_epoch class_n ^^ k) L) = shape L"
  by (induction k) (simp_all add: shape_spec_epoch)

lemma rect_funpow_spec_epoch: "rect L \<Longrightarrow> rect ((spec_epoch class_n ^^ k) L)"
  by (cases k) (simp_all add: rect_spec_epoch)

lemma filling_complete:
  assumes inv: "filling H a class_n h w h 0 t" and sh: "shape (H ! a) = (h, w)"
  shows "v_store t = H @ [spec_epoch class_n (H ! a)]"
proof -
  let ?d = "length H"
  let ?D = "v_store t ! ?d"
  from inv have ls: "length (v_store t) = Suc ?d"
    and old: "take ?d (v_store t) = H" and lD: "length ?D = h"
    and rows: "\<forall>r < h. length (?D ! r) = w"
    and filled: "\<forall>r < h. \<forall>c < w. ?D ! r ! c = int (spec_label class_n (H ! a) (int r, int c))"
    by (simp_all add: filling_def)
  have "?D = spec_epoch class_n (H ! a)"
    unfolding spec_epoch_rows[OF sh]
  proof (rule nth_equalityI)
    show "length ?D = length (map (\<lambda>i. map (\<lambda>j. int (spec_label class_n (H ! a) (int i, int j))) [0..<w]) [0..<h])"
      using lD by simp
  next
    fix r assume "r < length ?D"
    then have r: "r < h" using lD by simp
    show "?D ! r = map (\<lambda>i. map (\<lambda>j. int (spec_label class_n (H ! a) (int i, int j))) [0..<w]) [0..<h] ! r"
      using r rows filled by (intro nth_equalityI) simp_all
  qed
  moreover have "v_store t = take ?d (v_store t) @ [?D]"
    using ls by (metis lessI take_Suc_conv_app_nth take_all order_refl)
  ultimately show ?thesis using old by simp
qed

lemma epoch_body_spec_epoch:
  assumes a: "v_src s < length (v_store s)"
    and rc: "rect (v_store s ! v_src s)" and sh: "shape (v_store s ! v_src s) = (h, w)"
    and lc: "length (v_costs s) = class_n" and cn: "0 < class_n"
  shows "\<exists>t. epoch_body class_n h w epoch s = Inr t
           \<and> v_store t = v_store s @ [spec_epoch class_n (v_store s ! v_src s)]
           \<and> v_src t = length (v_store s) \<and> v_dst t = Some (length (v_store s))
           \<and> length (v_costs t) = class_n"
proof -
  let ?H = "v_store s"
  let ?a = "v_src s"
  let ?s0 = "s\<lparr>v_store := ?H @ [zeros_like (?H ! ?a)], v_dst := Some (length ?H)\<rparr>"
  have "filling ?H ?a class_n h w 0 0 ?s0"
    using lc rect_rows[OF rc sh] by (simp add: filling_def zeros_like_def)
  from grid_loop[OF this a sh cn] obtain t'
    where run: "for_each [0..<h] (\<lambda>i. for_each [0..<w] (cell_body class_n h w i)) ?s0 = Inr t'"
      and f: "filling ?H ?a class_n h w h 0 t'" by blast
  from f have dst: "v_dst t' = Some (length ?H)" and lc': "length (v_costs t') = class_n"
    by (simp_all add: filling_def)
  have "epoch_body class_n h w epoch s = Inr (t'\<lparr>v_src := length ?H\<rparr>)"
    unfolding epoch_body_def Let_def run sum.case dst by simp
  then show ?thesis
    using filling_complete[OF f sh] dst lc' by simp
qed

lemma after_epochs_src:
  assumes "after_epochs H a class_n k t" "a < length H"
  shows "v_src t < length (v_store t)"
    and "v_store t ! v_src t = (spec_epoch class_n ^^ k) (H ! a)"
proof -
  show "v_src t < length (v_store t)"
    using assms by (cases k) (simp_all add: after_epochs_def epoch_grids_def)
  show "v_store t ! v_src t = (spec_epoch class_n ^^ k) (H ! a)"
  proof (cases k)
    case 0
    then show ?thesis using assms by (simp add: after_epochs_def epoch_grids_def nth_append)
  next
    case (Suc m)
    have "(H @ epoch_grids class_n (H ! a) (Suc m)) ! (length H + m)
            = epoch_grids class_n (H ! a) (Suc m) ! m"
      by (simp add: nth_append)
    also have "\<dots> = (spec_epoch class_n ^^ Suc m) (H ! a)"
      unfolding epoch_grids_def by (subst nth_map) (simp_all del: upt_Suc)
    finally show ?thesis using assms Suc by (simp add: after_epochs_def)
  qed
qed

lemma after_epochs_step:
  assumes inv: "after_epochs H a class_n k t" and a: "a < length H"
    and rc: "rect (H ! a)" and sh: "shape (H ! a) = (h, w)" and cn: "0 < class_n"
  shows "\<exists>t'. epoch_body class_n h w k t = Inr t' \<and> after_epochs H a class_n (Suc k) t'"
proof -
  note src = after_epochs_src[OF inv a]
  have rc': "rect (v_store t ! v_src t)"
    unfolding src(2) by (rule rect_funpow_spec_epoch[OF rc])
  have sh': "shape (v_store t ! v_src t) = (h, w)"
    unfolding src(2) shape_funpow_spec_epoch by (rule sh)
  have lc: "length (v_costs t) = class_n" using inv by (simp add: after_epochs_def)
  from epoch_body_spec_epoch[OF src(1) rc' sh' lc cn, of k] obtain t'
    where run: "epoch_body class_n h w k t = Inr t'"
      and st: "v_store t' = v_store t @ [spec_epoch class_n (v_store t ! v_src t)]"
      and rest: "v_src t' = length (v_store t)" "v_dst t' = Some (length (v_store t))"
        "length (v_costs t') = class_n" by blast
  have "length (v_store t) = length H + k"
    using inv by (simp add: after_epochs_def epoch_grids_def)
  moreover have "v_store t' = H @ epoch_grids class_n (H ! a) (Suc k)"
    using st inv unfolding src(2) by (simp add: after_epochs_def epoch_grids_def)
  ultimately have "after_epochs H a class_n (Suc k) t'"
    using rest by (simp add: after_epochs_def)
  with run show ?thesis by blast
qed

lemma run_epochs_after_epochs:
  assumes a: "a < length H" and rc: "rect (H ! a)" and cn: "0 < class_n"
  shows "\<exists>t. run_epochs H a class_n epochs = Inr t \<and> after_epochs H a class_n epochs t"
proof -
  obtain h w where sh: "shape (H ! a) = (h, w)" by (cases "shape (H ! a)")
  let ?s = "\<lparr>v_store = H, v_costs = replicate class_n 0, v_src = a, v_dst = None\<rparr>"
  have "\<exists>t. for_each [0..<epochs] (epoch_body class_n h w) ?s = Inr t
            \<and> after_epochs H a class_n epochs t"
  proof (rule for_each_upt_rule[where P = "after_epochs H a class_n"])
    show "after_epochs H a class_n 0 ?s"
      by (simp add: after_epochs_def epoch_grids_def)
  next
    fix k t assume "after_epochs H a class_n k t"
    then show "\<exists>t'. epoch_body class_n h w k t = Inr t' \<and> after_epochs H a class_n (Suc k) t'"
      by (rule after_epochs_step[OF _ a rc sh cn])
  qed
  then show ?thesis by (simp add: run_epochs_def sh)
qed

lemma denoise_predictions_result:
  assumes a: "a < length H" and rc: "rect (H ! a)" and cn: "0 < class_n" and ep: "0 < epochs"
  shows "denoise_predictions H a class_n epochs
           = Inr (H @ epoch_grids (nat class_n) (H ! a) epochs, length H + epochs - 1)"
proof -
  have cn': "0 < nat class_n" using cn by simp
  from run_epochs_after_epochs[OF a rc cn', of epochs] obtain t
    where run: "run_epochs H a (nat class_n) epochs = Inr t"
      and f: "after_epochs H a (nat class_n) epochs t" by blast
  show ?thesis
    using f ep cn unfolding denoise_predictions_def run by (simp add: after_epochs_def)
qed

lemma denoised_result:
  assumes a: "a < length H" and rc: "rect (H ! a)" and cn: "0 < class_n" and ep: "0 < epochs"
  shows "denoised H a class_n epochs = Inr ((spec_epoch (nat class_n) ^^ epochs) (H ! a))"
proof -
  obtain k where k: "epochs = Suc k" using ep by (cases epochs) auto
  show ?thesis
    unfolding denoised_def denoise_predictions_result[OF a rc cn ep]
    by (simp add: k epoch_grids_def nth_append del: upt_Suc funpow.simps)
qed

lemma spec_label_least_cost:
  assumes "0 < class_n"
  shows "first_min (map (spec_cost L p) [0..<class_n]) (spec_label class_n L p)"
proof -
  have "map (spec_cost L p) [0..<class_n] \<noteq> []" using assms by simp
  from argmin_first_min[OF this] obtain m
    where fm: "first_min (map (spec_cost L p) [0..<class_n]) m" by blast
  then show ?thesis using spec_label_first_min[OF fm] by simp
qed

section \<open>What a call leaves untouched\<close>

lemma for_each_keeps:
  assumes "\<And>x t. keeps H t \<Longrightarrow> keeps_outcome H (body x t)"
    and "keeps H s"
  shows "keeps_outcome H (for_each xs body s)"
  using assms(2)
proof (induction xs arbitrary: s)
  case Nil
  then show ?case by (simp add: keeps_outcome_def)
next
  case (Cons x xs)
  show ?case
  proof (cases "body x s")
    case (Inl e)
    then show ?thesis using assms(1)[OF Cons.prems, of x] by (simp add: keeps_outcome_def)
  next
    case (Inr s')
    then have "keeps H s'" using assms(1)[OF Cons.prems, of x] by (simp add: keeps_outcome_def)
    from Cons.IH[OF this] Inr show ?thesis by simp
  qed
qed

lemma take_eq_length_le:
  assumes "take (length H) H' = H"
  shows "length H \<le> length H'"
proof -
  have "length (take (length H) H') = length H" using assms by simp
  then show ?thesis by simp
qed

lemma keeps_raise: "keeps H t \<Longrightarrow> keeps_outcome H (Inl (e, v_store t))"
  by (simp add: keeps_def keeps_outcome_def)

lemma keeps_costs: "keeps H t \<Longrightarrow> keeps_outcome H (Inr (t\<lparr>v_costs := c\<rparr>))"
  by (simp add: keeps_def keeps_outcome_def)

lemma keeps_write:
  assumes "keeps H t" "v_dst t = Some d"
  shows "keeps_outcome H (Inr (t\<lparr>v_store := (v_store t)[d := x]\<rparr>))"
  using assms by (simp add: keeps_def keeps_outcome_def)

lemma keeps_rebind:
  assumes "keeps H t"
  shows "keeps_outcome H (Inr (t\<lparr>v_src := d\<rparr>))"
  using assms by (simp add: keeps_def keeps_outcome_def)

lemma class_body_keeps:
  assumes "keeps H t"
  shows "keeps_outcome H (class_body i j ns k t)"
  unfolding class_body_def
  by (simp add: keeps_raise[OF assms] keeps_costs[OF assms] split: sum.split)

lemma cell_body_keeps:
  assumes "keeps H t"
  shows "keeps_outcome H (cell_body class_n h w i j t)"
proof -
  let ?r = "for_each [0..<class_n]
              (class_body i j (get_neighbors (int i) (int j) (int h) (int w))) t"
  have r: "keeps_outcome H ?r"
    by (rule for_each_keeps[OF class_body_keeps assms])
  show ?thesis
  proof (cases ?r)
    case (Inl e)
    then show ?thesis using r by (simp add: cell_body_def)
  next
    case (Inr s1)
    then have k: "keeps H s1" using r by (simp add: keeps_outcome_def)
    show ?thesis
      unfolding cell_body_def Let_def Inr
      by (simp add: keeps_raise[OF k] keeps_write[OF k] split: sum.split option.split)
  qed
qed

lemma epoch_body_keeps:
  assumes "keeps H t"
  shows "keeps_outcome H (epoch_body class_n h w epoch t)"
proof -
  let ?s0 = "t\<lparr>v_store := v_store t @ [zeros_like (v_store t ! v_src t)],
                v_dst := Some (length (v_store t))\<rparr>"
  let ?r = "for_each [0..<h] (\<lambda>i. for_each [0..<w] (cell_body class_n h w i)) ?s0"
  have len: "length H \<le> length (v_store t)"
    using assms by (simp add: keeps_def take_eq_length_le)
  have s0: "keeps H ?s0"
    using assms len by (simp add: keeps_def)
  have r: "keeps_outcome H ?r"
    by (rule for_each_keeps[OF _ s0]) (rule for_each_keeps[OF cell_body_keeps])
  show ?thesis
  proof (cases ?r)
    case (Inl e)
    then show ?thesis using r by (simp add: epoch_body_def)
  next
    case (Inr s1)
    then have k: "keeps H s1" using r by (simp add: keeps_outcome_def)
    show ?thesis
      unfolding epoch_body_def Let_def Inr
      by (simp add: keeps_raise[OF k] keeps_rebind[OF k] split: option.split)
  qed
qed

lemma run_epochs_keeps: "keeps_outcome H (run_epochs H a class_n epochs)"
proof -
  obtain h w where sh: "shape (H ! a) = (h, w)" by (cases "shape (H ! a)")
  have "keeps H \<lparr>v_store = H, v_costs = replicate class_n 0, v_src = a, v_dst = None\<rparr>"
    by (simp add: keeps_def)
  from for_each_keeps[OF epoch_body_keeps this]
  show ?thesis by (simp add: run_epochs_def sh)
qed

lemma kept_prefix_nth:
  assumes "a < length H" "take (length H) H' = H"
  shows "a < length H' \<and> H' ! a = H ! a \<and> take (length H) H' = H"
proof -
  have "length H \<le> length H'" using assms(2) by (rule take_eq_length_le)
  then have "a < length H'" using assms(1) by simp
  moreover have "take (length H) H' ! a = H' ! a" using assms(1) by simp
  then have "H' ! a = H ! a" unfolding assms(2) by simp
  ultimately show ?thesis using assms(2) by blast
qed

section \<open>Counting neighbours\<close>

lemma Neighborhood_iff:
  "(a, b) \<in> Neighborhood h w (i, j) \<longleftrightarrow>
     0 \<le> a \<and> a < int h \<and> 0 \<le> b \<and> b < int w \<and> max \<bar>a - i\<bar> \<bar>b - j\<bar> = 1"
  by (simp add: Neighborhood_def chebyshev_def)

lemma length_get_neighbors:
  assumes "i < h" "j < w"
  shows "length (get_neighbors (int i) (int j) (int h) (int w)) =
           (if 0 < i \<and> 0 < j then 1 else 0) + (if 0 < i then 1 else 0)
         + (if 0 < i \<and> Suc j < w then 1 else 0) + (if 0 < j then 1 else 0)
         + (if Suc j < w then 1 else 0) + (if Suc i < h \<and> 0 < j then 1 else 0)
         + (if Suc i < h then 1 else 0) + (if Suc i < h \<and> Suc j < w then 1 else 0)"
proof -
  have b: "in_bounds (int h) (int w) (int i - 1, int j - 1) \<longleftrightarrow> 0 < i \<and> 0 < j"
    "in_bounds (int h) (int w) (int i - 1, int j) \<longleftrightarrow> 0 < i"
    "in_bounds (int h) (int w) (int i - 1, int j + 1) \<longleftrightarrow> 0 < i \<and> Suc j < w"
    "in_bounds (int h) (int w) (int i, int j - 1) \<longleftrightarrow> 0 < j"
    "in_bounds (int h) (int w) (int i, int j + 1) \<longleftrightarrow> Suc j < w"
    "in_bounds (int h) (int w) (int i + 1, int j - 1) \<longleftrightarrow> Suc i < h \<and> 0 < j"
    "in_bounds (int h) (int w) (int i + 1, int j) \<longleftrightarrow> Suc i < h"
    "in_bounds (int h) (int w) (int i + 1, int j + 1) \<longleftrightarrow> Suc i < h \<and> Suc j < w"
    using assms unfolding in_bounds_def fst_conv snd_conv by linarith+
  show ?thesis
    unfolding get_neighbors_filter filter.simps b by simp
qed

section \<open>Costs on particular grids\<close>

lemma spec_cost_list:
  assumes "shape L = (h, w)"
  shows "spec_cost L (i, j) c =
           - (1 * indicator (int c = label_at L (i, j))
              + 10 * sum_list (map (\<lambda>n. indicator (int c = label_at L n))
                                   (get_neighbors i j (int h) (int w))))"
proof -
  have "(\<Sum>n \<in> Neighborhood h w (i, j). indicator (int c = label_at L n))
          = sum_list (map (\<lambda>n. indicator (int c = label_at L n))
                          (get_neighbors i j (int h) (int w)))"
    unfolding set_get_neighbors[symmetric]
    by (rule sum_list_distinct_conv_sum_set[symmetric]) (rule distinct_get_neighbors)
  then show ?thesis by (simp add: spec_cost_def assms)
qed

lemma spec_label_zero:
  assumes "0 < class_n" "\<And>k. spec_cost L p 0 \<le> spec_cost L p k"
  shows "spec_label class_n L p = 0"
  by (rule spec_label_first_min) (simp add: first_min_def assms)

lemma shape_outlier_grid: "shape outlier_grid = (3, 3)"
  by (simp add: outlier_grid_def shape_def)

lemma outlier_zero_wins:
  assumes "a \<in> {0, 1, 2}" "b \<in> {0, 1, 2}"
  shows "spec_cost outlier_grid (a, b) 0 \<le> spec_cost outlier_grid (a, b) k"
proof -
  consider "a = 0" | "a = 1" | "a = 2" using assms(1) by auto
  then show ?thesis
  proof cases
    case 1
    consider "b = 0" | "b = 1" | "b = 2" using assms(2) by auto
    then show ?thesis
      unfolding spec_cost_list[OF shape_outlier_grid] get_neighbors_filter 1
      by cases (simp_all add: in_bounds_def label_at_def outlier_grid_def indicator_def)
  next
    case 2
    consider "b = 0" | "b = 1" | "b = 2" using assms(2) by auto
    then show ?thesis
      unfolding spec_cost_list[OF shape_outlier_grid] get_neighbors_filter 2
      by cases (simp_all add: in_bounds_def label_at_def outlier_grid_def indicator_def)
  next
    case 3
    consider "b = 0" | "b = 1" | "b = 2" using assms(2) by auto
    then show ?thesis
      unfolding spec_cost_list[OF shape_outlier_grid] get_neighbors_filter 3
      by cases (simp_all add: in_bounds_def label_at_def outlier_grid_def indicator_def)
  qed
qed

lemma outlier_center_costs:
  "spec_cost outlier_grid (1, 1) 1 = - 1" "spec_cost outlier_grid (1, 1) 0 = - 80"
  unfolding spec_cost_list[OF shape_outlier_grid] get_neighbors_filter
  by (simp_all add: in_bounds_def label_at_def outlier_grid_def indicator_def)

lemma spec_epoch_outlier_grid:
  assumes "0 < class_n"
  shows "spec_epoch class_n outlier_grid = [[0, 0, 0], [0, 0, 0], [0, 0, 0]]"
proof -
  have z: "spec_label class_n outlier_grid (a, b) = 0" if "a \<in> {0, 1, 2}" "b \<in> {0, 1, 2}" for a b
    by (rule spec_label_zero[OF assms]) (rule outlier_zero_wins[OF that])
  have u: "[0..<3] = [0, 1, 2]" by (simp add: upt_rec)
  show ?thesis
    unfolding spec_epoch_rows[OF shape_outlier_grid] u using z by simp
qed

lemma outlier_center_code_costs:
  "cost 1 1 outlier_grid (get_neighbors 1 1 3 3) = Inr (- 1)"
  "cost 0 1 outlier_grid (get_neighbors 1 1 3 3) = Inr (- 80)"
  by (simp_all add: cost_def get_neighbors_filter in_bounds_def nd_get_def py_index_def
        shape_def kronecker_delta_def outlier_grid_def)

lemma outlier_center_cell:
  assumes L: "v_store s ! v_src s = outlier_grid"
    and lc: "length (v_costs s) = class_n" and cn: "1 < class_n"
    and d: "v_dst s = Some d" "d < length (v_store s)"
    and rc: "rect (v_store s ! d)" and sh: "shape (v_store s ! d) = (3, 3)"
  shows "\<exists>t. cell_body class_n 3 3 1 1 s = Inr t
           \<and> v_costs t ! 0 = - 80 \<and> v_costs t ! 1 = - 1
           \<and> argmin (v_costs t) = Inr 0 \<and> v_store t ! d ! 1 ! 1 = 0"
proof -
  have cn0: "0 < class_n" using cn by simp
  let ?D = "v_store s ! d"
  let ?s1 = "s\<lparr>v_costs := map (spec_cost outlier_grid (int 1, int 1)) [0..<class_n]\<rparr>"
  let ?t = "?s1\<lparr>v_store := (v_store s)[d := ?D[1 := (?D ! 1)[1 := 0]]]\<rparr>"
  have shL: "shape (v_store s ! v_src s) = (3, 3)" unfolding L by (rule shape_outlier_grid)
  have loop: "for_each [0..<class_n]
                (class_body 1 1 (get_neighbors (int 1) (int 1) (int 3) (int 3))) s = Inr ?s1"
    using class_loop[OF shL _ _ lc, of 1 1] L by simp
  have lab: "spec_label class_n outlier_grid (int 1, int 1) = 0"
    by (rule spec_label_zero[OF cn0]) (simp add: outlier_zero_wins)
  have am: "argmin (v_costs ?s1) = Inr 0"
    using argmin_spec_costs[OF cn0, of outlier_grid "(int 1, int 1)"] lab by simp
  have set: "nd_set (v_store ?s1 ! d) (int 1, int 1) (int 0) = Inr (?D[1 := (?D ! 1)[1 := 0]])"
    using nd_set_in_bounds[OF sh, of 1 1 "int 0"] by simp
  have run: "cell_body class_n 3 3 1 1 s = Inr ?t"
    unfolding cell_body_def Let_def loop sum.case am
    using d(1) set by simp
  have rows: "length ?D = 3" "length (?D ! 1) = 3"
    using rect_rows[OF rc sh] by simp_all
  have "v_store ?t ! d ! 1 ! 1 = 0" using d(2) rows by simp
  moreover have "argmin (v_costs ?t) = Inr 0" using am by simp
  moreover have "v_costs ?t ! 0 = - 80" "v_costs ?t ! 1 = - 1"
    using cn cn0 outlier_center_costs by simp_all
  ultimately show ?thesis using run by blast
qed

lemma shape_uniform:
  "0 < h \<Longrightarrow> shape (replicate h (replicate w c)) = (h, w)"
  by (cases h) (simp_all add: shape_def)

lemma label_at_uniform:
  assumes "0 \<le> a" "a < int h" "0 \<le> b" "b < int w"
  shows "label_at (replicate h (replicate w c)) (a, b) = c"
  using assms by (simp add: label_at_def)

lemma spec_cost_uniform:
  assumes "i < h" "j < w"
  shows "spec_cost (replicate h (replicate w c)) (int i, int j) k
           = - (indicator (int k = c) * (1 + 10 * int (card (Neighborhood h w (int i, int j)))))"
proof -
  let ?L = "replicate h (replicate w c)"
  have sh: "shape ?L = (h, w)" using assms(1) by (intro shape_uniform) simp
  have "(\<Sum>n \<in> Neighborhood h w (int i, int j). indicator (int k = label_at ?L n))
          = (\<Sum>n \<in> Neighborhood h w (int i, int j). indicator (int k = c))"
  proof (rule sum.cong[OF refl])
    fix n assume n: "n \<in> Neighborhood h w (int i, int j)"
    obtain a b where ab: "n = (a, b)" by (cases n)
    have "0 \<le> a \<and> a < int h \<and> 0 \<le> b \<and> b < int w"
      using n unfolding ab Neighborhood_def by simp
    then show "indicator (int k = label_at ?L n) = indicator (int k = c)"
      unfolding ab by (simp add: label_at_uniform)
  qed
  moreover have "label_at ?L (int i, int j) = c"
    using assms by (simp add: label_at_uniform)
  ultimately show ?thesis
    by (simp add: spec_cost_def sh algebra_simps)
qed

lemma spec_label_uniform:
  assumes "i < h" "j < w" "0 \<le> c" "c < int class_n"
  shows "int (spec_label class_n (replicate h (replicate w c)) (int i, int j)) = c"
proof -
  let ?L = "replicate h (replicate w c)"
  let ?N = "1 + 10 * int (card (Neighborhood h w (int i, int j)))"
  have pos: "0 < ?N" by simp
  have c: "nat c < class_n" using assms(3,4) by simp
  have at: "spec_cost ?L (int i, int j) (nat c) = - ?N"
    unfolding spec_cost_uniform[OF assms(1,2)] using assms(3) by (simp add: indicator_def)
  have other: "spec_cost ?L (int i, int j) k = 0" if "k \<noteq> nat c" for k
    unfolding spec_cost_uniform[OF assms(1,2)] using that assms(3)
    by (auto simp: indicator_def)
  have "first_min (map (spec_cost ?L (int i, int j)) [0..<class_n]) (nat c)"
    unfolding first_min_def
  proof (intro conjI allI impI)
    show "nat c < length (map (spec_cost ?L (int i, int j)) [0..<class_n])" using c by simp
  next
    fix k assume "k < length (map (spec_cost ?L (int i, int j)) [0..<class_n])"
    then have k: "k < class_n" by simp
    show "map (spec_cost ?L (int i, int j)) [0..<class_n] ! nat c
            \<le> map (spec_cost ?L (int i, int j)) [0..<class_n] ! k"
      using k c at other[of k] pos by (cases "k = nat c") simp_all
  next
    fix k assume k: "k < nat c"
    then have "k \<noteq> nat c" "k < class_n" using c by simp_all
    then show "map (spec_cost ?L (int i, int j)) [0..<class_n] ! nat c
            < map (spec_cost ?L (int i, int j)) [0..<class_n] ! k"
      using c at other[of k] pos by simp
  qed
  from spec_label_first_min[OF this] assms(3) show ?thesis by simp
qed

lemma spec_epoch_uniform:
  assumes "0 \<le> c" "c < int class_n"
  shows "spec_epoch class_n (replicate h (replicate w c)) = replicate h (replicate w c)"
proof (cases "h = 0")
  case True
  then show ?thesis by (simp add: spec_epoch_def shape_def)
next
  case False
  let ?L = "replicate h (replicate w c)"
  have sh: "shape ?L = (h, w)" using False by (intro shape_uniform) simp
  have "map (\<lambda>i. map (\<lambda>j. int (spec_label class_n ?L (int i, int j))) [0..<w]) [0..<h]
          = map (\<lambda>i. map (\<lambda>j. c) [0..<w]) [0..<h]"
    by (intro map_cong refl) (simp add: spec_label_uniform[OF _ _ assms])
  then show ?thesis
    unfolding spec_epoch_rows[OF sh] by (simp add: map_replicate_const)
qed

lemma uniform_grid_fixed_point:
  assumes "a < length H" and "H ! a = replicate h (replicate w c)"
    and "0 \<le> c" and "c < class_n" and "0 < epochs"
  shows "denoised H a class_n epochs = Inr (H ! a)"
proof -
  have cn: "0 < class_n" "c < int (nat class_n)" using assms(3,4) by simp_all
  have r: "rect (H ! a)" unfolding assms(2) by (auto simp: rect_def list_all_iff)
  have "(spec_epoch (nat class_n) ^^ k) (H ! a) = H ! a" for k
    unfolding assms(2)
    by (induction k) (simp_all add: spec_epoch_uniform[OF assms(3) cn(2)])
  then show ?thesis
    using denoised_result[OF assms(1) r cn(1) assms(5)] by simp
qed

section \<open>Batches\<close>

lemma for_each_map:
  "for_each (map f xs) body s = for_each xs (\<lambda>x. body (f x)) s"
  by (induction xs arbitrary: s) (auto split: sum.splits)

lemma less_n_batches_iff:
  assumes "0 < m"
  shows "k < n_batches n m \<longleftrightarrow> k * m < n"
proof -
  have "k < n_batches n m \<longleftrightarrow> Suc k \<le> (n + m - 1) div m"
    by (simp add: n_batches_def Suc_le_eq)
  also have "\<dots> \<longleftrightarrow> Suc k * m \<le> n + m - 1"
    using assms by (simp add: less_eq_div_iff_mult_less_eq)
  also have "\<dots> \<longleftrightarrow> k * m < n" using assms by auto
  finally show ?thesis .
qed

lemma n_batches_covers: "0 < m \<Longrightarrow> n \<le> n_batches n m * m"
  using less_n_batches_iff[of m "n_batches n m" n] by simp

lemma xrange_batches:
  "0 < m \<Longrightarrow> xrange 0 n m = Inr (map (\<lambda>k. k * m) [0..<n_batches n m])"
  by (simp add: xrange_def n_batches_def)

lemma batches_map:
  assumes "0 < m"
  shows "batches subs m = map (\<lambda>k. take m (drop (k * m) subs)) [0..<n_batches (length subs) m]"
  by (simp add: batches_def xrange_batches[OF assms] slice_def comp_def)

lemma length_batches: "0 < m \<Longrightarrow> length (batches subs m) = n_batches (length subs) m"
  by (simp add: batches_map)

lemma nth_batches:
  assumes "0 < m" "k < n_batches (length subs) m"
  shows "batches subs m ! k = take m (drop (k * m) subs)"
  using assms by (simp add: batches_map)

lemma concat_chunks:
  "concat (map (\<lambda>k. take m (drop (k * m) xs)) [0..<q]) = take (q * m) xs"
proof (induction q)
  case 0
  then show ?case by simp
next
  case (Suc q)
  have "take (q * m) xs @ take m (drop (q * m) xs) = take (q * m + m) xs"
    by (simp add: take_add)
  then show ?case using Suc by (simp add: add.commute)
qed

lemma concat_batches:
  assumes "0 < m"
  shows "concat (batches subs m) = subs"
  unfolding batches_map[OF assms] concat_chunks
  using n_batches_covers[OF assms, of "length subs"] by simp

lemma length_batch:
  assumes "0 < m" "k < n_batches (length subs) m"
  shows "length (batches subs m ! k) = min m (length subs - k * m)"
  by (simp add: nth_batches[OF assms])

lemma length_full_batch:
  assumes "0 < m" "Suc k < n_batches (length subs) m"
  shows "length (batches subs m ! k) = m"
proof -
  have "Suc k * m < length subs" using assms less_n_batches_iff by blast
  then have "m \<le> length subs - k * m" by simp
  moreover have k: "k < n_batches (length subs) m" using assms(2) by simp
  ultimately show ?thesis using length_batch[OF assms(1) k] by simp
qed

lemma n_batches_div:
  assumes "0 < m"
  shows "n_batches n m = (if n mod m = 0 then n div m else Suc (n div m))"
proof -
  let ?r = "n mod m" and ?d = "n div m"
  have n: "n = m * ?d + ?r" by simp
  have r: "?r < m" using assms by simp
  show ?thesis
  proof (cases "?r = 0")
    case True
    have "(n + m - 1) div m = ?d"
    proof (rule div_nat_eqI)
      show "m * ?d \<le> n + m - 1" using n assms by linarith
      have "n = m * ?d" using n True by simp
      then show "n + m - 1 < m * Suc ?d" using assms by simp
    qed
    then show ?thesis using True by (simp add: n_batches_def)
  next
    case False
    have "(n + m - 1) div m = Suc ?d"
    proof (rule div_nat_eqI)
      have "m * Suc ?d = m * ?d + m" by simp
      then show "m * Suc ?d \<le> n + m - 1" using n False by linarith
      have "m * Suc (Suc ?d) = m * ?d + m + m" by simp
      then show "n + m - 1 < m * Suc (Suc ?d)" using n r assms by linarith
    qed
    then show ?thesis using False by (simp add: n_batches_def)
  qed
qed

lemma length_last_batch:
  assumes "0 < m" "subs \<noteq> []"
  shows "length (last (batches subs m))
           = (if length subs mod m = 0 then m else length subs mod m)"
proof -
  let ?n = "length subs" and ?q = "n_batches (length subs) m"
  have n: "0 < ?n" using assms(2) by simp
  then have q: "0 < ?q" using less_n_batches_iff[OF assms(1), of 0 ?n] by simp
  then have ne: "batches subs m \<noteq> []" using length_batches[OF assms(1), of subs] by auto
  have "last (batches subs m) = batches subs m ! (?q - 1)"
    using ne length_batches[OF assms(1), of subs] by (simp add: last_conv_nth)
  then have len: "length (last (batches subs m)) = min m (?n - (?q - 1) * m)"
    using length_batch[OF assms(1), of "?q - 1" subs] q by simp
  show ?thesis
  proof (cases "?n mod m = 0")
    case True
    then have "?q = ?n div m" using n_batches_div[OF assms(1)] by simp
    moreover have nm: "?n div m * m = ?n" using True by auto
    moreover have "m \<le> ?n" using True n assms(1) by (simp add: dvd_imp_le mod_eq_0_iff_dvd)
    ultimately have "?n - (?q - 1) * m = m"
      using q by (simp add: diff_mult_distrib)
    then show ?thesis using len True by simp
  next
    case False
    then have "?q - 1 = ?n div m" using n_batches_div[OF assms(1)] by simp
    moreover have "?n - ?n div m * m = ?n mod m"
      by (simp add: minus_div_mult_eq_mod)
    moreover have "?n mod m < m" using assms(1) by simp
    ultimately show ?thesis using len False by simp
  qed
qed

lemma slice_assign_fits:
  assumes "a + length vs \<le> length xs"
  shows "slice_assign xs a (a + length vs) vs = Inr (take a xs @ vs @ drop (a + length vs) xs)"
proof -
  have "min a (length xs) = a" "min (a + length vs) (length xs) = a + length vs"
    using assms by simp_all
  then show ?thesis by (simp add: slice_assign_def Let_def max_def)
qed

lemma batch_body_step:
  assumes m: "0 < m" and cl: "\<And>b. length (classify b) = length b"
    and k: "k < n_batches (length subs) m" and inv: "batching classify subs m k s"
  shows "\<exists>s'. batch_body classify subs m (k * m) s = Inr s' \<and> batching classify subs m (Suc k) s'"
proof -
  let ?n = "length subs"
  let ?b = "batches subs m ! k"
  let ?ov = "overlay_predictions s"
  let ?i = "overlay_prediction_i s"
  have km: "k * m < ?n" using k less_n_batches_iff[OF m] by blast
  have b: "slice subs (k * m) (k * m + m) = ?b"
    by (simp add: nth_batches[OF m k] slice_def)
  have lb: "length ?b = min m (?n - k * m)" by (rule length_batch[OF m k])
  from inv have i0: "?i = min (k * m) ?n" and lo: "length ?ov = ?n"
    and tk: "take ?i ?ov = concat (map classify (take k (batches subs m)))"
    unfolding batching_def by blast+
  have i: "?i = k * m" using i0 km by simp
  have fits: "?i + length (classify ?b) \<le> length ?ov"
    using i lo lb cl km by simp
  let ?ov' = "take ?i ?ov @ classify ?b @ drop (?i + length (classify ?b)) ?ov"
  let ?s' = "\<lparr>overlay_predictions = ?ov', overlay_prediction_i = ?i + length ?b\<rparr>"
  have sa: "slice_assign ?ov ?i (?i + length ?b) (classify ?b) = Inr ?ov'"
    using slice_assign_fits[OF fits] by (simp add: cl)
  have run: "batch_body classify subs m (k * m) s = Inr ?s'"
    unfolding batch_body_def Let_def b sa by simp
  have i': "?i + length ?b = min (Suc k * m) ?n"
    using i lb km by simp
  have len': "length ?ov' = ?n" using fits lo by simp
  have "take (?i + length ?b) ?ov' = take ?i ?ov @ classify ?b"
    using fits lo by (simp add: cl)
  also have "\<dots> = concat (map classify (take (Suc k) (batches subs m)))"
    using tk k length_batches[OF m, of subs] by (simp add: take_Suc_conv_app_nth)
  finally have "batching classify subs m (Suc k) ?s'"
    using i' len' by (simp add: batching_def)
  with run show ?thesis by blast
qed

lemma classify_block_concat:
  assumes m: "0 < m" and cl: "\<And>b. length (classify b) = length b"
  shows "classify_block classify subs m (length subs)
           = Inr (concat (map classify (batches subs m)))"
proof -
  let ?n = "length subs" and ?q = "n_batches (length subs) m"
  let ?s0 = "\<lparr>overlay_predictions = replicate ?n 0, overlay_prediction_i = 0\<rparr>"
  have "\<exists>s. for_each [0..<?q] (\<lambda>k. batch_body classify subs m (k * m)) ?s0 = Inr s
            \<and> batching classify subs m ?q s"
  proof (rule for_each_upt_rule[where P = "batching classify subs m"])
    show "batching classify subs m 0 ?s0" by (simp add: batching_def)
  next
    fix k s assume "k < ?q" "batching classify subs m k s"
    then show "\<exists>s'. batch_body classify subs m (k * m) s = Inr s'
                 \<and> batching classify subs m (Suc k) s'"
      by (rule batch_body_step[OF m cl])
  qed
  then obtain s where run: "for_each [0..<?q] (\<lambda>k. batch_body classify subs m (k * m)) ?s0 = Inr s"
    and inv: "batching classify subs m ?q s" by blast
  from inv have i0: "overlay_prediction_i s = min (?q * m) ?n"
    and lo: "length (overlay_predictions s) = ?n"
    and tk: "take (overlay_prediction_i s) (overlay_predictions s)
               = concat (map classify (take ?q (batches subs m)))"
    unfolding batching_def by blast+
  have "overlay_prediction_i s = ?n"
    using i0 n_batches_covers[OF m, of ?n] by simp
  then have "take (overlay_prediction_i s) (overlay_predictions s) = overlay_predictions s"
    using lo by simp
  moreover have "take ?q (batches subs m) = batches subs m"
    using length_batches[OF m, of subs] by simp
  ultimately have "overlay_predictions s = concat (map classify (batches subs m))"
    using tk by simp
  then show ?thesis
    unfolding classify_block_def xrange_batches[OF m] sum.case for_each_map run
    by simp
qed

section \<open>Assembly of a single block\<close>

lemma get_concatenated_col_single: "get_concatenated_col [m] = Inr m"
  by (simp add: get_concatenated_col_def)

lemma assemble_single:
  "assemble 1 block =
     (case block 0 0 of (flat, rows, cols) \<Rightarrow> reshape flat rows cols)"
  by (simp add: assemble_def block_body_def get_concatenated_col_single
        split: prod.splits sum.splits)

lemma reshape_nth:
  assumes "length v = rows * cols" "i < rows" "j < cols"
  shows "\<exists>m. reshape v rows cols = Inr m \<and> length m = rows \<and> length (m ! i) = cols
             \<and> m ! i ! j = v ! (i * cols + j)"
proof -
  have "Suc i * cols \<le> rows * cols" using assms(2) by (simp add: Suc_leI mult_le_mono1 del: mult_Suc)
  then have le: "i * cols + cols \<le> length v" using assms(1) by simp
  then have "length (slice v (i * cols) (i * cols + cols)) = cols"
    by (simp add: slice_def)
  moreover have "slice v (i * cols) (i * cols + cols) ! j = v ! (i * cols + j)"
    using le assms(3) by (simp add: slice_def)
  ultimately show ?thesis using assms by (simp add: reshape_def)
qed

section \<open>C1: calls with no epoch\<close>

text \<open>
  C1. The claim: with \<open>epochs = 0\<close> the Denoiser returns the input grid unchanged.
  The code: the loop over the epochs never runs, \<open>dst\<close> is never bound, and
  \<^verbatim>\<open>return dst\<close> raises UnboundLocalError (after ValueError from
  \<^verbatim>\<open>np.zeros\<close> for a negative \<open>class_n\<close>), for every store, input address and
  \<open>class_n\<close>; no grid is returned.
\<close>

theorem denoise_zero_epochs_raises:
  "denoise_predictions H src class_n 0
     = Inl (if class_n < 0 then ValueError else UnboundLocalError, H)"
  by (simp add: denoise_predictions_def run_epochs_def split: prod.splits)

section \<open>C2: cost and first-minimum label of every cell\<close>

text \<open>
  C2. In every epoch (the body of the epoch loop, run from any frame whose \<open>src\<close> refers to
  a well-formed \<open>h \<times> w\<close> grid), for every cell \<open>(i, j)\<close> and every candidate class
  \<open>c < class_n\<close>, the call of \<^verbatim>\<open>cost\<close> the code makes returns
  \<open>-(1\<cdot>[c = L(i,j)] + 10\<cdot>\<Sum>n\<in>Neighborhood. [c = L(n)])\<close> (\<open>spec_cost\<close>) on the pre-epoch grid
  \<open>L\<close>, and the cell of \<open>dst\<close> receives a class \<open>m < class_n\<close> whose cost is minimal and
  strictly below the cost of every smaller class index.
\<close>

theorem epoch_cell_is_first_least_cost:
  assumes "v_src s < length (v_store s)"
    and "rect (v_store s ! v_src s)" and "shape (v_store s ! v_src s) = (h, w)"
    and "length (v_costs s) = class_n" and "0 < class_n"
    and "i < h" and "j < w"
  shows "\<exists>t d m. epoch_body class_n h w epoch s = Inr t \<and> v_dst t = Some d \<and>
           v_store t ! d ! i ! j = int m \<and> m < class_n \<and>
           (\<forall>c < class_n.
              cost (int c) (label_at (v_store s ! v_src s) (int i, int j)) (v_store s ! v_src s)
                   (get_neighbors (int i) (int j) (int h) (int w))
                = Inr (spec_cost (v_store s ! v_src s) (int i, int j) c)) \<and>
           (\<forall>c < class_n. spec_cost (v_store s ! v_src s) (int i, int j) m
                            \<le> spec_cost (v_store s ! v_src s) (int i, int j) c) \<and>
           (\<forall>c < m. spec_cost (v_store s ! v_src s) (int i, int j) m
                      < spec_cost (v_store s ! v_src s) (int i, int j) c)"
proof -
  let ?L = "v_store s ! v_src s"
  let ?m = "spec_label class_n ?L (int i, int j)"
  from epoch_body_spec_epoch[OF assms(1-5), of epoch] obtain t
    where run: "epoch_body class_n h w epoch s = Inr t"
      and st: "v_store t = v_store s @ [spec_epoch class_n ?L]"
      and dst: "v_dst t = Some (length (v_store s))" by blast
  have cell: "v_store t ! length (v_store s) ! i ! j = int ?m"
    unfolding st using assms(6,7) by (simp add: spec_epoch_rows[OF assms(3)])
  have fm: "first_min (map (spec_cost ?L (int i, int j)) [0..<class_n]) ?m"
    by (rule spec_label_least_cost[OF assms(5)])
  then have m: "?m < class_n"
    and le: "\<forall>c < class_n. spec_cost ?L (int i, int j) ?m \<le> spec_cost ?L (int i, int j) c"
    and lt: "\<forall>c < ?m. spec_cost ?L (int i, int j) ?m < spec_cost ?L (int i, int j) c"
    by (auto simp: first_min_def)
  have c: "\<forall>c < class_n.
              cost (int c) (label_at ?L (int i, int j)) ?L
                   (get_neighbors (int i) (int j) (int h) (int w))
                = Inr (spec_cost ?L (int i, int j) c)"
    using cost_spec_cost[OF assms(3)] by simp
  from run dst cell m c le lt show ?thesis by blast
qed

theorem epoch_cell_is_first_least_cost_witness:
  "\<exists>t d m. epoch_body 2 2 2 0
              \<lparr>v_store = [[[0, 1], [1, 1]]], v_costs = [0, 0], v_src = 0, v_dst = None\<rparr> = Inr t
     \<and> v_dst t = Some d \<and> v_store t ! d ! 0 ! 0 = int m \<and> m < 2"
proof -
  let ?s = "\<lparr>v_store = [[[0, 1], [1, 1]]], v_costs = [0, 0], v_src = 0, v_dst = None\<rparr>"
  have h: "v_src ?s < length (v_store ?s)" "rect (v_store ?s ! v_src ?s)"
    "shape (v_store ?s ! v_src ?s) = (2, 2)" "length (v_costs ?s) = 2"
    "(0::nat) < 2" "(0::nat) < 2" "(0::nat) < 2"
    by (simp_all add: rect_def shape_def)
  from epoch_cell_is_first_least_cost[OF h, of 0] show ?thesis
    by (simp only: int_ops) blast
qed

section \<open>C3: synchronous epochs\<close>

text \<open>
  C3. Every epoch is a synchronous update. In the code each cell reads the array \<open>src\<close>
  refers to and writes the separate array \<open>dst\<close> refers to, and \<open>src\<close> is rebound to \<open>dst\<close>
  only after the last cell. Hence, for a well-formed input grid \<open>H ! a\<close> and \<open>class_n \<ge> 1\<close>:
  after the loop has run \<open>epochs\<close> times the array \<open>src\<close> refers to is \<open>epochs\<close>
  applications of the single-epoch step \<open>spec_epoch\<close> (a function of the pre-epoch grid alone)
  to the input grid, no array of the initial store has changed, and for \<open>epochs \<ge> 1\<close> that
  array is what \<^verbatim>\<open>denoise_predictions\<close> returns.
\<close>

theorem epochs_are_synchronous_steps:
  assumes "a < length H" and "rect (H ! a)" and "0 < class_n"
  shows "\<exists>t. run_epochs H a (nat class_n) epochs = Inr t
           \<and> v_store t ! v_src t = (spec_epoch (nat class_n) ^^ epochs) (H ! a)
           \<and> take (length H) (v_store t) = H
           \<and> (0 < epochs \<longrightarrow>
                denoised H a class_n epochs
                  = Inr ((spec_epoch (nat class_n) ^^ epochs) (H ! a)))"
proof -
  have cn: "0 < nat class_n" using assms(3) by simp
  from run_epochs_after_epochs[OF assms(1,2) cn, of epochs] obtain t
    where run: "run_epochs H a (nat class_n) epochs = Inr t"
      and inv: "after_epochs H a (nat class_n) epochs t" by blast
  have "take (length H) (v_store t) = H"
    using inv by (simp add: after_epochs_def)
  with run after_epochs_src(2)[OF inv assms(1)] denoised_result[OF assms]
  show ?thesis by blast
qed

theorem epochs_are_synchronous_steps_witness:
  "\<exists>t. run_epochs [[[2, 1, 0], [1, 2, 1], [0, 1, 2]]] 0 (nat 3) 2 = Inr t
     \<and> v_store t ! v_src t = (spec_epoch (nat 3) ^^ 2) ([[[2, 1, 0], [1, 2, 1], [0, 1, 2]]] ! 0)
     \<and> denoised [[[2, 1, 0], [1, 2, 1], [0, 1, 2]]] 0 3 2
          = Inr ((spec_epoch (nat 3) ^^ 2) ([[[2, 1, 0], [1, 2, 1], [0, 1, 2]]] ! 0))"
proof -
  let ?H = "[[[2, 1, 0], [1, 2, 1], [0, 1, 2]]] :: store"
  have h: "0 < length ?H" "rect (?H ! 0)" "(0::int) < 3"
    by (simp_all add: rect_def)
  have e: "(0::nat) < 2" by simp
  from epochs_are_synchronous_steps[OF h, of 2] e show ?thesis by blast
qed

section \<open>C4: the neighbourhood\<close>

text \<open>
  C4, as stated, counts 3 neighbours for every corner cell. Cell \<open>(0, 0)\<close> of a
  \<open>1 \<times> 1\<close> grid is a corner cell and \<^verbatim>\<open>get_neighbors(0, 0, 1, 1)\<close> is empty.
\<close>

theorem corner_of_1x1_has_no_neighbors:
  "get_neighbors 0 0 1 1 = [] \<and> length (get_neighbors 0 0 1 1) \<noteq> 3"
  by (simp add: get_neighbors_filter in_bounds_def)

text \<open>
  C4, amended. For every cell \<open>(i, j)\<close> of an \<open>h \<times> w\<close> grid, \<^verbatim>\<open>get_neighbors\<close> lists,
  without repetition, exactly the in-bounds cells at Chebyshev distance 1 from \<open>(i, j)\<close>
  (no wraparound, nothing out of bounds), at most 8 of them; and when \<open>h \<ge> 2\<close> and
  \<open>w \<ge> 2\<close> a corner cell has exactly 3 neighbours, a non-corner edge cell exactly 5 and an
  interior cell exactly 8.
\<close>

theorem neighbors_are_chebyshev_ring:
  assumes "i < h" and "j < w"
  shows "set (get_neighbors (int i) (int j) (int h) (int w))
           = {(a, b). 0 \<le> a \<and> a < int h \<and> 0 \<le> b \<and> b < int w
                      \<and> max \<bar>a - int i\<bar> \<bar>b - int j\<bar> = 1}
       \<and> distinct (get_neighbors (int i) (int j) (int h) (int w))
       \<and> length (get_neighbors (int i) (int j) (int h) (int w)) \<le> 8
       \<and> (2 \<le> h \<and> 2 \<le> w \<longrightarrow>
            length (get_neighbors (int i) (int j) (int h) (int w))
              = (if (i = 0 \<or> i = h - 1) \<and> (j = 0 \<or> j = w - 1) then 3
                 else if i = 0 \<or> i = h - 1 \<or> j = 0 \<or> j = w - 1 then 5
                 else 8))"
proof (intro conjI impI)
  show "set (get_neighbors (int i) (int j) (int h) (int w))
           = {(a, b). 0 \<le> a \<and> a < int h \<and> 0 \<le> b \<and> b < int w
                      \<and> max \<bar>a - int i\<bar> \<bar>b - int j\<bar> = 1}"
    unfolding set_get_neighbors using Neighborhood_iff by blast
  show "distinct (get_neighbors (int i) (int j) (int h) (int w))"
    by (rule distinct_get_neighbors)
  show "length (get_neighbors (int i) (int j) (int h) (int w)) \<le> 8"
    unfolding length_get_neighbors[OF assms] by simp
next
  assume big: "2 \<le> h \<and> 2 \<le> w"
  have i: "i = h - 1 \<longleftrightarrow> \<not> Suc i < h" and j: "j = w - 1 \<longleftrightarrow> \<not> Suc j < w"
    using assms by linarith+
  have i0: "i = 0 \<longleftrightarrow> \<not> 0 < i" and j0: "j = 0 \<longleftrightarrow> \<not> 0 < j" by simp_all
  have "\<not> (\<not> 0 < i \<and> \<not> Suc i < h)" "\<not> (\<not> 0 < j \<and> \<not> Suc j < w)"
    using big assms by linarith+
  then show "length (get_neighbors (int i) (int j) (int h) (int w))
              = (if (i = 0 \<or> i = h - 1) \<and> (j = 0 \<or> j = w - 1) then 3
                 else if i = 0 \<or> i = h - 1 \<or> j = 0 \<or> j = w - 1 then 5
                 else 8)"
    unfolding length_get_neighbors[OF assms] i j i0 j0
    by (cases "0 < i"; cases "Suc i < h"; cases "0 < j"; cases "Suc j < w") simp_all
qed

theorem neighbors_are_chebyshev_ring_witness:
  "set (get_neighbors (int 0) (int 1) (int 3) (int 4))
     = {(a, b). 0 \<le> a \<and> a < int 3 \<and> 0 \<le> b \<and> b < int 4
                \<and> max \<bar>a - int 0\<bar> \<bar>b - int 1\<bar> = 1}
   \<and> length (get_neighbors (int 0) (int 1) (int 3) (int 4)) = 5"
proof -
  have h: "(0::nat) < 3" "(1::nat) < 4" by simp_all
  have "2 \<le> (3::nat) \<and> 2 \<le> (4::nat)" by simp
  with neighbors_are_chebyshev_ring[OF h] show ?thesis by simp
qed

section \<open>C5: outlier correction\<close>

text \<open>
  C5. For the \<open>3 \<times> 3\<close> grid \<open>L\<close> that is 0 everywhere but 1 at the centre and any
  \<open>class_n \<ge> 2\<close>, one epoch returns the all-zero \<open>3 \<times> 3\<close> grid. At the centre the code's
  \<^verbatim>\<open>cost(1, 1, L, get_neighbors(1, 1, 3, 3))\<close> is \<open>-1\<close> (keeping class 1) and
  \<^verbatim>\<open>cost(0, 1, L, get_neighbors(1, 1, 3, 3))\<close> is \<open>-80\<close> (switching to class 0), as are
  the specification's costs. In whatever frame the centre cell is processed (any contents
  of the cost vector and of \<open>dst\<close>), the cell's body leaves \<open>-80\<close> and \<open>-1\<close> in entries 0 and 1
  of \<open>costs\<close>, \<^verbatim>\<open>np.argmin(costs)\<close> is 0, and the centre of \<open>dst\<close> is overwritten with 0.
\<close>

theorem outlier_is_corrected:
  assumes "a < length H" and "H ! a = [[0, 0, 0], [0, 1, 0], [0, 0, 0]]" and "2 \<le> class_n"
  shows "denoised H a class_n 1 = Inr [[0, 0, 0], [0, 0, 0], [0, 0, 0]]
       \<and> spec_cost (H ! a) (1, 1) 1 = - 1 \<and> spec_cost (H ! a) (1, 1) 0 = - 80
       \<and> cost 1 1 (H ! a) (get_neighbors 1 1 3 3) = Inr (- 1)
       \<and> cost 0 1 (H ! a) (get_neighbors 1 1 3 3) = Inr (- 80)
       \<and> (\<forall>s d. v_store s ! v_src s = H ! a \<and> length (v_costs s) = nat class_n
                  \<and> v_dst s = Some d \<and> d < length (v_store s)
                  \<and> rect (v_store s ! d) \<and> shape (v_store s ! d) = (3, 3) \<longrightarrow>
              (\<exists>t. cell_body (nat class_n) 3 3 1 1 s = Inr t
                   \<and> v_costs t ! 0 = - 80 \<and> v_costs t ! 1 = - 1
                   \<and> argmin (v_costs t) = Inr 0 \<and> v_store t ! d ! 1 ! 1 = 0))"
proof -
  have L: "H ! a = outlier_grid" using assms(2) by (simp add: outlier_grid_def)
  have r: "rect (H ! a)" unfolding assms(2) by (simp add: rect_def)
  have cn: "0 < class_n" "0 < nat class_n" "1 < nat class_n" using assms(3) by simp_all
  have "denoised H a class_n 1 = Inr (spec_epoch (nat class_n) outlier_grid)"
    using denoised_result[OF assms(1) r cn(1), of 1] L by simp
  then have whole: "denoised H a class_n 1 = Inr [[0, 0, 0], [0, 0, 0], [0, 0, 0]]"
    using spec_epoch_outlier_grid[OF cn(2)] by simp
  have centre: "\<forall>s d. v_store s ! v_src s = H ! a \<and> length (v_costs s) = nat class_n
                  \<and> v_dst s = Some d \<and> d < length (v_store s)
                  \<and> rect (v_store s ! d) \<and> shape (v_store s ! d) = (3, 3) \<longrightarrow>
              (\<exists>t. cell_body (nat class_n) 3 3 1 1 s = Inr t
                   \<and> v_costs t ! 0 = - 80 \<and> v_costs t ! 1 = - 1
                   \<and> argmin (v_costs t) = Inr 0 \<and> v_store t ! d ! 1 ! 1 = 0)"
    unfolding L using outlier_center_cell[OF _ _ cn(3)] by blast
  show ?thesis
    using whole centre outlier_center_costs outlier_center_code_costs unfolding L by blast
qed

theorem outlier_is_corrected_witness:
  "denoised [[[0, 0, 0], [0, 1, 0], [0, 0, 0]]] 0 2 1 = Inr [[0, 0, 0], [0, 0, 0], [0, 0, 0]]
   \<and> cost 1 1 ([[[0, 0, 0], [0, 1, 0], [0, 0, 0]]] ! 0) (get_neighbors 1 1 3 3) = Inr (- 1)
   \<and> cost 0 1 ([[[0, 0, 0], [0, 1, 0], [0, 0, 0]]] ! 0) (get_neighbors 1 1 3 3) = Inr (- 80)
   \<and> (\<exists>t. cell_body (nat 2) 3 3 1 1
              \<lparr>v_store = [[[0, 0, 0], [0, 1, 0], [0, 0, 0]], [[7, 7, 7], [7, 7, 7], [7, 7, 7]]],
               v_costs = [5, 5], v_src = 0, v_dst = Some 1\<rparr> = Inr t
          \<and> v_costs t ! 0 = - 80 \<and> v_costs t ! 1 = - 1
          \<and> argmin (v_costs t) = Inr 0 \<and> v_store t ! 1 ! 1 ! 1 = 0)"
proof -
  let ?H = "[[[0, 0, 0], [0, 1, 0], [0, 0, 0]]] :: store"
  let ?s = "\<lparr>v_store = [[[0, 0, 0], [0, 1, 0], [0, 0, 0]], [[7, 7, 7], [7, 7, 7], [7, 7, 7]]],
             v_costs = [5, 5], v_src = 0, v_dst = Some 1\<rparr>"
  have h: "0 < length ?H" "?H ! 0 = [[0, 0, 0], [0, 1, 0], [0, 0, 0]]" "(2::int) \<le> 2"
    by simp_all
  have f: "v_store ?s ! v_src ?s = ?H ! 0 \<and> length (v_costs ?s) = nat 2
             \<and> v_dst ?s = Some 1 \<and> 1 < length (v_store ?s)
             \<and> rect (v_store ?s ! 1) \<and> shape (v_store ?s ! 1) = (3, 3)"
    by (simp add: rect_def shape_def)
  from outlier_is_corrected[OF h] f show ?thesis by blast
qed

section \<open>C6: uniform grids\<close>

text \<open>
  C6. The claim: a uniform grid of a class \<open>c\<close> with \<open>0 \<le> c < class_n\<close> is returned unchanged
  for any number of epochs. For one epoch or more the code does so (lemma
  \<open>uniform_grid_fixed_point\<close>). For \<open>epochs = 0\<close> it returns nothing: on the uniform
  \<open>2 \<times> 2\<close> grid of class 1 with three classes the call raises UnboundLocalError.
\<close>

theorem uniform_grid_zero_epochs_raises:
  "denoised [replicate 2 (replicate 2 1)] 0 3 0 = Inl UnboundLocalError"
  by (simp add: denoised_def denoise_predictions_def run_epochs_def shape_def)

section \<open>C7: batches\<close>

text \<open>
  C7. For a batch size \<open>mb_n \<ge> 1\<close> and a classifier that returns one label per tile of its
  batch, the batch loop over a block's flat tile sequence \<open>subs\<close> (with the label vector
  allocated for \<open>length subs\<close> tiles) returns the in-order concatenation of the classifier's
  outputs on the batches, one label per tile; the batches are consecutive slices of \<open>subs\<close>
  whose concatenation is \<open>subs\<close> itself (no tile is added, dropped or repeated); every batch
  but the last has exactly \<open>mb_n\<close> tiles, and the last one has \<open>length subs mod mb_n\<close> tiles
  when that is not 0 (and \<open>mb_n\<close> otherwise).
\<close>

theorem batches_cover_tiles_in_order:
  assumes "1 \<le> mb_n" and "\<And>b. length (classify b) = length b"
  shows "classify_block classify subs mb_n (length subs)
           = Inr (concat (map classify (batches subs mb_n)))
       \<and> length (concat (map classify (batches subs mb_n))) = length subs
       \<and> concat (batches subs mb_n) = subs
       \<and> (\<forall>k. Suc k < length (batches subs mb_n) \<longrightarrow> length (batches subs mb_n ! k) = mb_n)
       \<and> (subs \<noteq> [] \<longrightarrow>
            length (last (batches subs mb_n))
              = (if length subs mod mb_n = 0 then mb_n else length subs mod mb_n))"
proof -
  have m: "0 < mb_n" using assms(1) by simp
  have "length (concat (map classify (batches subs mb_n))) = length (concat (batches subs mb_n))"
    by (simp add: length_concat comp_def assms(2))
  then have "length (concat (map classify (batches subs mb_n))) = length subs"
    by (simp add: concat_batches[OF m])
  moreover have "\<forall>k. Suc k < length (batches subs mb_n) \<longrightarrow> length (batches subs mb_n ! k) = mb_n"
    unfolding length_batches[OF m] using length_full_batch[OF m] by blast
  ultimately show ?thesis
    using classify_block_concat[OF m assms(2)] concat_batches[OF m] length_last_batch[OF m]
    by blast
qed

theorem batches_cover_tiles_in_order_witness:
  "classify_block (map (\<lambda>t. t mod 7)) [10, 11, 12, 13, 14, 15, 16 :: int] 3
       (length [10, 11, 12, 13, 14, 15, 16 :: int])
     = Inr (concat (map (map (\<lambda>t. t mod 7)) (batches [10, 11, 12, 13, 14, 15, 16 :: int] 3)))
   \<and> concat (batches [10, 11, 12, 13, 14, 15, 16 :: int] 3) = [10, 11, 12, 13, 14, 15, 16]
   \<and> length (last (batches [10, 11, 12, 13, 14, 15, 16 :: int] 3)) = 1"
proof -
  have h: "(1::nat) \<le> 3" "\<And>b :: int list. length (map (\<lambda>t. t mod 7) b) = length b"
    by simp_all
  have ne: "[10, 11, 12, 13, 14, 15, 16 :: int] \<noteq> []" by simp
  from batches_cover_tiles_in_order[of 3 "map (\<lambda>t. t mod 7)" "[10, 11, 12, 13, 14, 15, 16 :: int]", OF h] ne
  show ?thesis by simp
qed

section \<open>C8: round-trip reassembly\<close>

text \<open>
  C8. With partition factor 1 the single block \<open>(0, 0)\<close> has a flat label vector \<open>flat\<close> and
  tile-grid shape \<open>(rows, cols)\<close> with \<open>length flat = rows * cols\<close>; the assembled grid is
  then exactly \<^verbatim>\<open>np.reshape(flat, (rows, cols))\<close>: it has \<open>rows\<close> rows of \<open>cols\<close> entries
  and its entry \<open>(i, j)\<close> is \<open>flat[i * cols + j]\<close>.
\<close>

theorem single_block_assembly_is_reshape:
  assumes "block 0 0 = (flat, rows, cols)" and "length flat = rows * cols"
  shows "\<exists>m. assemble 1 block = Inr m \<and> reshape flat rows cols = Inr m
             \<and> length m = rows
             \<and> (\<forall>i < rows. length (m ! i) = cols
                   \<and> (\<forall>j < cols. m ! i ! j = flat ! (i * cols + j)))"
proof -
  obtain m where m: "reshape flat rows cols = Inr m" and lm: "length m = rows"
    using assms(2) by (simp add: reshape_def)
  have "assemble 1 block = Inr m"
    unfolding assemble_single assms(1) using m by simp
  moreover have "length (m ! i) = cols \<and> (\<forall>j < cols. m ! i ! j = flat ! (i * cols + j))"
    if "i < rows" for i
  proof (cases "cols = 0")
    case True
    then show ?thesis using m that assms(2) by (auto simp: reshape_def slice_def)
  next
    case False
    then have "0 < cols" by simp
    from reshape_nth[OF assms(2) that this] m have "length (m ! i) = cols" by simp
    moreover have "m ! i ! j = flat ! (i * cols + j)" if "j < cols" for j
      using reshape_nth[OF assms(2) \<open>i < rows\<close> that] m by simp
    ultimately show ?thesis by blast
  qed
  ultimately show ?thesis using m lm by blast
qed

theorem single_block_assembly_is_reshape_witness:
  "\<exists>m. assemble 1 (\<lambda>row_i col_i. ([3, 1, 4, 1, 5, 9], 2, 3)) = Inr m
     \<and> reshape [3, 1, 4, 1, 5, 9] 2 3 = Inr m \<and> length m = 2"
proof -
  have h: "(\<lambda>row_i col_i. ([3, 1, 4, 1, 5, 9], 2, 3)) (0::nat) (0::nat) = ([3, 1, 4, 1, 5, 9 :: int], 2 :: nat, 3 :: nat)"
    "length [3, 1, 4, 1, 5, 9 :: int] = 2 * 3" by simp_all
  from single_block_assembly_is_reshape[OF h] show ?thesis by blast
qed

section \<open>C9: returned labels are class indices\<close>

text \<open>
  C9. For every well-formed input grid (whatever labels it holds, in range or not), every
  \<open>class_n \<ge> 1\<close> and every \<open>epochs \<ge> 1\<close>, \<^verbatim>\<open>denoise_predictions\<close> returns normally
  and every entry \<open>v\<close> of the returned grid satisfies \<open>0 \<le> v < class_n\<close>.
\<close>

theorem denoised_labels_in_range:
  assumes "a < length H" and "rect (H ! a)" and "1 \<le> class_n" and "1 \<le> epochs"
  shows "\<exists>H' d. denoise_predictions H a class_n epochs = Inr (H', d)
           \<and> list_all (list_all (\<lambda>v. 0 \<le> v \<and> v < class_n)) (H' ! d)"
proof -
  have cn: "0 < class_n" and ep: "0 < epochs" using assms by simp_all
  obtain k where k: "epochs = Suc k" using ep by (cases epochs) auto
  let ?L = "(spec_epoch (nat class_n) ^^ k) (H ! a)"
  let ?H' = "H @ epoch_grids (nat class_n) (H ! a) epochs"
  have run: "denoise_predictions H a class_n epochs = Inr (?H', length H + epochs - 1)"
    by (rule denoise_predictions_result[OF assms(1,2) cn ep])
  have "?H' ! (length H + epochs - 1) = epoch_grids (nat class_n) (H ! a) (Suc k) ! k"
    by (simp add: k nth_append)
  also have "\<dots> = spec_epoch (nat class_n) ?L"
    unfolding epoch_grids_def by (subst nth_map) (simp_all del: upt_Suc)
  finally have res: "?H' ! (length H + epochs - 1) = spec_epoch (nat class_n) ?L" .
  have lab: "int (spec_label (nat class_n) ?L p) < class_n" for p
    using spec_label_less[of "nat class_n" ?L p] cn by linarith
  have "list_all (list_all (\<lambda>v. 0 \<le> v \<and> v < class_n)) (spec_epoch (nat class_n) ?L)"
    using lab by (auto simp: spec_epoch_def list_all_iff)
  with run res show ?thesis by simp
qed

theorem denoised_labels_in_range_witness:
  "\<exists>H' d. denoise_predictions [[[7, -3], [9, 9]]] 0 2 1 = Inr (H', d)
     \<and> list_all (list_all (\<lambda>v. 0 \<le> v \<and> v < 2)) (H' ! d)"
proof -
  let ?H = "[[[7, -3], [9, 9]]] :: store"
  have h: "0 < length ?H" "rect (?H ! 0)" "(1::int) \<le> 2" "(1::nat) \<le> 1"
    by (simp_all add: rect_def)
  from denoised_labels_in_range[OF h] show ?thesis .
qed

section \<open>C10: the caller's grid is never mutated\<close>

text \<open>
  C10. Whatever \<open>class_n\<close> and \<open>epochs\<close> are and however the call ends, the array at the
  input address \<open>a\<close> holds its original values afterwards, as does every other array of the
  initial store \<open>H\<close>; on a normal return the address returned is that of an array allocated
  during the call, so it differs from \<open>a\<close>.
\<close>

theorem input_grid_never_mutated:
  assumes "a < length H"
  shows "case denoise_predictions H a class_n epochs of
           Inl (e, H') \<Rightarrow> a < length H' \<and> H' ! a = H ! a \<and> take (length H) H' = H
         | Inr (H', d) \<Rightarrow> a < length H' \<and> H' ! a = H ! a \<and> take (length H) H' = H
                           \<and> d \<noteq> a \<and> length H \<le> d \<and> d < length H'"
proof (cases "class_n < 0")
  case True
  have "a < length H \<and> H ! a = H ! a \<and> take (length H) H = H"
    using assms by simp
  moreover have "denoise_predictions H a class_n epochs = Inl (ValueError, H)"
    using True by (simp add: denoise_predictions_def)
  ultimately show ?thesis by (simp only: sum.case prod.case simp_thms)
next
  case False
  note r = run_epochs_keeps[of H a "nat class_n" epochs]
  show ?thesis
  proof (cases "run_epochs H a (nat class_n) epochs")
    case (Inl x)
    obtain e H' where x: "x = (e, H')" by (cases x)
    have "take (length H) H' = H"
      using r unfolding Inl x keeps_outcome_def by (simp only: sum.case prod.case simp_thms)
    moreover have "denoise_predictions H a class_n epochs = Inl (e, H')"
      using False Inl x by (simp add: denoise_predictions_def)
    ultimately show ?thesis
      using kept_prefix_nth[OF assms] by (simp only: sum.case prod.case simp_thms)
  next
    case (Inr s)
    have k: "keeps H s"
      using r unfolding Inr keeps_outcome_def by (simp only: sum.case)
    then have t: "take (length H) (v_store s) = H" unfolding keeps_def by blast
    note o = kept_prefix_nth[OF assms t]
    show ?thesis
    proof (cases "v_dst s")
      case None
      have "denoise_predictions H a class_n epochs = Inl (UnboundLocalError, v_store s)"
        using False Inr None by (simp add: denoise_predictions_def)
      with o show ?thesis by (simp only: sum.case prod.case simp_thms)
    next
      case (Some d)
      have d: "length H \<le> d \<and> d < length (v_store s)"
        using k Some unfolding keeps_def by blast
      then have da: "d \<noteq> a" using assms by linarith
      have "denoise_predictions H a class_n epochs = Inr (v_store s, d)"
        using False Inr Some by (simp add: denoise_predictions_def)
      with o d da show ?thesis by (simp only: sum.case prod.case simp_thms)
    qed
  qed
qed

theorem input_grid_never_mutated_witness:
  "\<exists>H' d. denoise_predictions [[[5]], [[0, 1], [1, 1]]] 1 2 3 = Inr (H', d)
     \<and> H' ! 1 = [[[5]], [[0, 1], [1, 1]]] ! 1 \<and> d \<noteq> 1"
proof -
  let ?H = "[[[5]], [[0, 1], [1, 1]]] :: store"
  have a: "1 < length ?H" by simp
  have h: "rect (?H ! 1)" "(0::int) < 2" "(0::nat) < 3" by (simp_all add: rect_def)
  from denoise_predictions_result[OF a h]
  obtain H' d where run: "denoise_predictions ?H 1 2 3 = Inr (H', d)" by blast
  have "H' ! 1 = ?H ! 1 \<and> d \<noteq> 1"
    using input_grid_never_mutated[OF a, of 2 3] unfolding run sum.case prod.case by blast
  with run show ?thesis by blast
qed

end
